theory Spec2Isabelle
  imports Main "HOL-Library.Multiset"
begin

section \<open>Python values and errors\<close>

text \<open>
  Python integers are unbounded, so they are modelled as \<open>int\<close>. The exceptions the two
  scripts can raise in the modelled code are division by zero (\<open>remaining // i\<close>) and a
  missing dictionary key (\<open>d[k]\<close>); they are values of type \<open>error\<close>, and a function
  that may raise returns \<open>error + 'a\<close>.
\<close>

datatype error = ZeroDivisionError | KeyError

text \<open>\<open>d.get(k, default)\<close>: never raises.\<close>

definition dict_get :: "('k \<rightharpoonup> 'v) \<Rightarrow> 'k \<Rightarrow> 'v \<Rightarrow> 'v" where
  "dict_get d k dflt = (case d k of None \<Rightarrow> dflt | Some v \<Rightarrow> v)"

text \<open>\<open>d[k]\<close>: raises KeyError when the key is absent.\<close>

definition dict_index :: "('k \<rightharpoonup> 'v) \<Rightarrow> 'k \<Rightarrow> error + 'v" where
  "dict_index d k = (case d k of None \<Rightarrow> Inl KeyError | Some v \<Rightarrow> Inr v)"

text \<open>Sequencing of two computations that may raise: the first error wins.\<close>

definition and_then :: "error + 'a \<Rightarrow> ('a \<Rightarrow> error + 'b) \<Rightarrow> error + 'b" where
  "and_then r f = (case r of Inl e \<Rightarrow> Inl e | Inr v \<Rightarrow> f v)"

section \<open>Detector evaluators\<close>

subsection \<open>Cubic detector (verify\_binomial\_detector.py)\<close>

definition binomial_cubic_detector :: "int \<Rightarrow> (int \<rightharpoonup> int) \<Rightarrow> int" where
  "binomial_cubic_detector n Ms_for_n =
     (if n < 3 then 0
      else
        let m1 = dict_get Ms_for_n 1 0;
            m2 = dict_get Ms_for_n 2 0;
            m3 = dict_get Ms_for_n 3 0;
            binom_part = (n - 1) * (n - 2);
            val = binom_part * (m1 + m2) - 5 * (n - 1) * m2 - 80 * m3
        in val)"

subsection \<open>Quartic detector (verify\_quartic\_detector.py)\<close>

definition COEFFS :: "string \<rightharpoonup> int" where
  "COEFFS =
     [''M1_n3'' \<mapsto> - 4305,
      ''M1_n2'' \<mapsto> 12915,
      ''M1_n1'' \<mapsto> - 8610,
      ''M2_n3'' \<mapsto> - 2296,
      ''M2_n2'' \<mapsto> 18368,
      ''M3_n3'' \<mapsto> - 3200,
      ''M3_n2'' \<mapsto> 48640,
      ''M4_n1'' \<mapsto> 967680]"

definition quartic_L4 :: "int \<Rightarrow> (int \<rightharpoonup> int) \<Rightarrow> error + int" where
  "quartic_L4 n Ms_for_n =
     (let m1 = dict_get Ms_for_n 1 0;
          m2 = dict_get Ms_for_n 2 0;
          m3 = dict_get Ms_for_n 3 0;
          m4 = dict_get Ms_for_n 4 0
      in
        and_then (dict_index COEFFS ''M1_n3'') (\<lambda>c13.
        and_then (dict_index COEFFS ''M1_n2'') (\<lambda>c12.
        and_then (dict_index COEFFS ''M1_n1'') (\<lambda>c11.
        and_then (dict_index COEFFS ''M2_n3'') (\<lambda>c23.
        and_then (dict_index COEFFS ''M2_n2'') (\<lambda>c22.
        and_then (dict_index COEFFS ''M3_n3'') (\<lambda>c33.
        and_then (dict_index COEFFS ''M3_n2'') (\<lambda>c32.
        and_then (dict_index COEFFS ''M4_n1'') (\<lambda>c41.
          let term1 = (c13 * n ^ 3 + c12 * n ^ 2 + c11 * n) * m1;
              term2 = (c23 * n ^ 3 + c22 * n ^ 2) * m2;
              term3 = (c33 * n ^ 3 + c32 * n ^ 2) * m3;
              term4 = (c41 * n) * m4
          in Inr (term1 + term2 + term3 + term4))))))))))"

section \<open>Partition-statistics engine, quartic script (K = 4)\<close>

text \<open>
  The innermost loops of \<open>rec\<close> in verify\_quartic\_detector.py:
  \<^verbatim>\<open>
  if m != 1:
      for k in range(1, 5):
          if child[k]: V[k] += m * child[k]
  else:
      for k in range(1, 5):
          if child[k]: V[k] += child[k]
  \<close>
  The statistics vector \<open>V\<close> is a Python list of length 5, here an \<open>int list\<close>.
\<close>

definition add_child4 :: "int \<Rightarrow> int list \<Rightarrow> int list \<Rightarrow> int list" where
  "add_child4 m child V =
     (if m \<noteq> 1 then
        fold (\<lambda>k V. if child ! nat k \<noteq> 0 then V[nat k := V ! nat k + m * child ! nat k] else V)
          [1..4] V
      else
        fold (\<lambda>k V. if child ! nat k \<noteq> 0 then V[nat k := V ! nat k + child ! nat k] else V)
          [1..4] V)"

text \<open>
  \<open>rec4\<close> is \<open>rec(remaining, min_part, distinct_used)\<close> of the quartic script. The
  memoisation (\<open>lru_cache\<close>) does not change the value computed and is left out.
  \<open>rec4_parts\<close> is the loop \<open>for i in range(min_part, remaining + 1)\<close> from the
  current value \<open>i\<close> on, with the vector accumulated so far; \<open>rec4_mults\<close> is the loop
  \<open>for m in range(1, max_m + 1)\<close> from the current \<open>m\<close> on. \<open>remaining // i\<close> raises
  for \<open>i = 0\<close>; Python's \<open>//\<close> on integers is floor division, as is \<open>div\<close> on \<open>int\<close>.
\<close>

function rec4 :: "int \<Rightarrow> int \<Rightarrow> int \<Rightarrow> error + int list"
  and rec4_parts :: "int \<Rightarrow> int \<Rightarrow> int \<Rightarrow> int list \<Rightarrow> error + int list"
  and rec4_mults :: "int \<Rightarrow> int \<Rightarrow> int \<Rightarrow> int \<Rightarrow> int \<Rightarrow> int list \<Rightarrow> error + int list"
where
  "rec4 remaining min_part distinct_used =
     (if remaining = 0 then
        (if 1 \<le> distinct_used \<and> distinct_used \<le> 4
         then Inr ([0, 0, 0, 0, 0][nat distinct_used := 1])
         else Inr [0, 0, 0, 0, 0])
      else rec4_parts remaining distinct_used min_part [0, 0, 0, 0, 0])"
| "rec4_parts remaining distinct_used i V =
     (if i < remaining + 1 then
        (if distinct_used + 1 > 4 then Inr V
         else if i = 0 then Inl ZeroDivisionError
         else
           (case rec4_mults remaining distinct_used i (remaining div i) 1 V of
              Inl e \<Rightarrow> Inl e
            | Inr V' \<Rightarrow> rec4_parts remaining distinct_used (i + 1) V'))
      else Inr V)"
| "rec4_mults remaining distinct_used i max_m m V =
     (if m < max_m + 1 then
        (case rec4 (remaining - m * i) (i + 1) (distinct_used + 1) of
           Inl e \<Rightarrow> Inl e
         | Inr child \<Rightarrow>
             rec4_mults remaining distinct_used i max_m (m + 1) (add_child4 m child V))
      else Inr V)"
  by pat_completeness auto

text \<open>
  Termination: a call of \<open>rec4\<close> from the multiplicity loop has \<open>distinct_used\<close> one
  higher, and the part loop breaks before entering the multiplicity loop once
  \<open>distinct_used + 1 > 4\<close>; within a loop the counter approaches its bound.
\<close>

definition rec4_measure ::
  "int \<times> int \<times> int + int \<times> int \<times> int \<times> int list + int \<times> int \<times> int \<times> int \<times> int \<times> int list
     \<Rightarrow> nat \<times> nat" where
  "rec4_measure x =
     (case x of
        Inl (r, mp, d) \<Rightarrow> (if d < 4 then 4 * nat (4 - d) + 4 else 1, 0)
      | Inr (Inl (r, d, i, V)) \<Rightarrow> (if d < 4 then 4 * nat (4 - d) + 3 else 0, nat (r + 1 - i))
      | Inr (Inr (r, d, i, mx, m, V)) \<Rightarrow> (4 * nat (4 - d) + 2, nat (mx + 1 - m)))"

termination rec4
  apply (relation "inv_image (less_than <*lex*> less_than) rec4_measure")
     apply (auto simp: rec4_measure_def)
  done

text \<open>
  \<open>compute_M_up_to_4(n_max)\<close>: the table \<open>Ms[n][k] = V[k]\<close> for \<open>n\<close> in
  \<open>range(0, n_max + 1)\<close> and \<open>k\<close> in \<open>range(1, 5)\<close>, where \<open>V = rec(n, 1, 0)\<close>.
\<close>

definition stats_dict4 :: "int list \<Rightarrow> (int \<rightharpoonup> int)" where
  "stats_dict4 V = fold (\<lambda>k d. d(k \<mapsto> V ! nat k)) [1..4] Map.empty"

fun compute_M4_loop ::
  "int list \<Rightarrow> (int \<rightharpoonup> (int \<rightharpoonup> int)) \<Rightarrow> error + (int \<rightharpoonup> (int \<rightharpoonup> int))" where
  "compute_M4_loop [] Ms = Inr Ms"
| "compute_M4_loop (n # ns) Ms =
     (case rec4 n 1 0 of
        Inl e \<Rightarrow> Inl e
      | Inr V \<Rightarrow> compute_M4_loop ns (Ms(n \<mapsto> stats_dict4 V)))"

definition compute_M_up_to_4 :: "int \<Rightarrow> error + (int \<rightharpoonup> (int \<rightharpoonup> int))" where
  "compute_M_up_to_4 n_max = compute_M4_loop [0..n_max] Map.empty"

section \<open>Verification driver, quartic script\<close>

text \<open>
  \<open>verify_range(N_max, verbose)\<close>. The primality test \<open>sympy.isprime\<close> is an external
  collaborator and a parameter of the model. The model returns the list \<open>failures\<close>
  together with the rows printed (one \<open>(n, is_prime, val, ok)\<close> per line of the table,
  only when \<open>verbose\<close>); the header lines are left out.
\<close>

fun verify_loop ::
  "(int \<Rightarrow> bool) \<Rightarrow> bool \<Rightarrow> (int \<rightharpoonup> (int \<rightharpoonup> int)) \<Rightarrow> int list
     \<Rightarrow> (int \<times> bool \<times> int) list \<Rightarrow> (int \<times> bool \<times> int \<times> bool) list
     \<Rightarrow> error + (int \<times> bool \<times> int) list \<times> (int \<times> bool \<times> int \<times> bool) list" where
  "verify_loop isprime verbose Ms [] failures out = Inr (failures, out)"
| "verify_loop isprime verbose Ms (n # ns) failures out =
     (case dict_index Ms n of
        Inl e \<Rightarrow> Inl e
      | Inr Ms_n \<Rightarrow>
          (case quartic_L4 n Ms_n of
             Inl e \<Rightarrow> Inl e
           | Inr val \<Rightarrow>
               let is_prime = isprime n;
                   ok = ((is_prime \<and> val = 0) \<or> (\<not> is_prime \<and> val \<noteq> 0));
                   out' = (if verbose then out @ [(n, is_prime, val, ok)] else out);
                   failures' = (if \<not> ok then failures @ [(n, is_prime, val)] else failures)
               in verify_loop isprime verbose Ms ns failures' out'))"

definition verify_range ::
  "(int \<Rightarrow> bool) \<Rightarrow> int \<Rightarrow> bool
     \<Rightarrow> error + (int \<times> bool \<times> int) list \<times> (int \<times> bool \<times> int \<times> bool) list" where
  "verify_range isprime N_max verbose =
     (case compute_M_up_to_4 N_max of
        Inl e \<Rightarrow> Inl e
      | Inr Ms \<Rightarrow> verify_loop isprime verbose Ms [2..N_max] [] [])"

section \<open>Partition-statistics engine, cubic script (K = 3)\<close>

text \<open>
  The inner loop of \<open>rec\<close> in verify\_binomial\_detector.py:
  \<^verbatim>\<open>
  mult = m if m > 1 else 1
  for k in range(1, 4):
      if child[k]: V[k] += mult * child[k]
  \<close>
  Here the statistics vector has length 4.
\<close>

definition add_child3 :: "int \<Rightarrow> int list \<Rightarrow> int list \<Rightarrow> int list" where
  "add_child3 m child V =
     (let mult = (if m > 1 then m else 1)
      in fold (\<lambda>k V. if child ! nat k \<noteq> 0 then V[nat k := V ! nat k + mult * child ! nat k] else V)
           [1..3] V)"

text \<open>
  \<open>rec3\<close> is \<open>rec(remaining, min_part, distinct_used)\<close> of the cubic script, with its
  two loops \<open>rec3_parts\<close> and \<open>rec3_mults\<close>. The branch \<open>if distinct_used >= 3: pass\<close>
  does nothing. \<open>compute_M_up_to_3\<close> below builds the table as the quartic script does,
  for \<open>k\<close> in \<open>range(1, 4)\<close>; the progress line it prints is left out.
\<close>

function rec3 :: "int \<Rightarrow> int \<Rightarrow> int \<Rightarrow> error + int list"
  and rec3_parts :: "int \<Rightarrow> int \<Rightarrow> int \<Rightarrow> int list \<Rightarrow> error + int list"
  and rec3_mults :: "int \<Rightarrow> int \<Rightarrow> int \<Rightarrow> int \<Rightarrow> int \<Rightarrow> int list \<Rightarrow> error + int list"
where
  "rec3 remaining min_part distinct_used =
     (if remaining = 0 then
        (if 1 \<le> distinct_used \<and> distinct_used \<le> 3
         then Inr ([0, 0, 0, 0][nat distinct_used := 1])
         else Inr [0, 0, 0, 0])
      else rec3_parts remaining distinct_used min_part [0, 0, 0, 0])"
| "rec3_parts remaining distinct_used i V =
     (if i < remaining + 1 then
        (if distinct_used + 1 > 3 then Inr V
         else if i = 0 then Inl ZeroDivisionError
         else
           (case rec3_mults remaining distinct_used i (remaining div i) 1 V of
              Inl e \<Rightarrow> Inl e
            | Inr V' \<Rightarrow> rec3_parts remaining distinct_used (i + 1) V'))
      else Inr V)"
| "rec3_mults remaining distinct_used i max_m m V =
     (if m < max_m + 1 then
        (case rec3 (remaining - m * i) (i + 1) (distinct_used + 1) of
           Inl e \<Rightarrow> Inl e
         | Inr child \<Rightarrow>
             rec3_mults remaining distinct_used i max_m (m + 1) (add_child3 m child V))
      else Inr V)"
  by pat_completeness auto

definition rec3_measure ::
  "int \<times> int \<times> int + int \<times> int \<times> int \<times> int list + int \<times> int \<times> int \<times> int \<times> int \<times> int list
     \<Rightarrow> nat \<times> nat" where
  "rec3_measure x =
     (case x of
        Inl (r, mp, d) \<Rightarrow> (if d < 3 then 4 * nat (3 - d) + 4 else 1, 0)
      | Inr (Inl (r, d, i, V)) \<Rightarrow> (if d < 3 then 4 * nat (3 - d) + 3 else 0, nat (r + 1 - i))
      | Inr (Inr (r, d, i, mx, m, V)) \<Rightarrow> (4 * nat (3 - d) + 2, nat (mx + 1 - m)))"

termination rec3
  apply (relation "inv_image (less_than <*lex*> less_than) rec3_measure")
     apply (auto simp: rec3_measure_def)
  done

definition stats_dict3 :: "int list \<Rightarrow> (int \<rightharpoonup> int)" where
  "stats_dict3 V = fold (\<lambda>k d. d(k \<mapsto> V ! nat k)) [1..3] Map.empty"

fun compute_M3_loop ::
  "int list \<Rightarrow> (int \<rightharpoonup> (int \<rightharpoonup> int)) \<Rightarrow> error + (int \<rightharpoonup> (int \<rightharpoonup> int))" where
  "compute_M3_loop [] Ms = Inr Ms"
| "compute_M3_loop (n # ns) Ms =
     (case rec3 n 1 0 of
        Inl e \<Rightarrow> Inl e
      | Inr V \<Rightarrow> compute_M3_loop ns (Ms(n \<mapsto> stats_dict3 V)))"

definition compute_M_up_to_3 :: "int \<Rightarrow> error + (int \<rightharpoonup> (int \<rightharpoonup> int))" where
  "compute_M_up_to_3 n_max = compute_M3_loop [0..n_max] Map.empty"

section \<open>Verification driver, cubic script\<close>

text \<open>
  The module-level loop of verify\_binomial\_detector.py, with the bound \<open>N_MAX\<close> as a
  parameter (the script fixes it to 1000). It accumulates \<open>failures\<close> (a list of the
  failing \<open>n\<close>) and prints one row \<open>(n, is_prime, val, passed)\<close> per \<open>n\<close>; the rows
  printed are returned with \<open>failures\<close>.
\<close>

fun main_loop ::
  "(int \<Rightarrow> bool) \<Rightarrow> (int \<rightharpoonup> (int \<rightharpoonup> int)) \<Rightarrow> int list
     \<Rightarrow> int list \<Rightarrow> (int \<times> bool \<times> int \<times> bool) list
     \<Rightarrow> error + int list \<times> (int \<times> bool \<times> int \<times> bool) list" where
  "main_loop isprime Ms [] failures out = Inr (failures, out)"
| "main_loop isprime Ms (n # ns) failures out =
     (case dict_index Ms n of
        Inl e \<Rightarrow> Inl e
      | Inr Ms_n \<Rightarrow>
          let val = binomial_cubic_detector n Ms_n;
              is_prime = isprime n;
              passed = False;
              passed = (if is_prime \<and> val = 0 then True else passed);
              passed = (if \<not> is_prime \<and> val \<noteq> 0 then True else passed);
              failures' = (if \<not> passed then failures @ [n] else failures);
              out' = out @ [(n, is_prime, val, passed)]
          in main_loop isprime Ms ns failures' out')"

definition binomial_main ::
  "(int \<Rightarrow> bool) \<Rightarrow> int \<Rightarrow> error + int list \<times> (int \<times> bool \<times> int \<times> bool) list" where
  "binomial_main isprime n_max =
     (case compute_M_up_to_3 n_max of
        Inl e \<Rightarrow> Inl e
      | Inr Ms \<Rightarrow> main_loop isprime Ms [2..n_max] [] [])"

section \<open>Reference definitions\<close>

text \<open>
  A partition of \<open>n\<close> is a multiset of positive integers with sum \<open>n\<close>. Its distinct part
  sizes are the elements of its support, the multiplicity of a part size is its count.
  \<open>M_ref k n\<close> is the sum, over the partitions of \<open>n\<close> with exactly \<open>k\<close> distinct part
  sizes, of the product of the multiplicities; \<open>p n\<close> is the number of partitions of \<open>n\<close>.
\<close>

definition partitions :: "nat \<Rightarrow> nat multiset set" where
  "partitions n = {p. 0 \<notin># p \<and> sum_mset p = n}"

definition distinct_sizes :: "nat multiset \<Rightarrow> nat" where
  "distinct_sizes p = card (set_mset p)"

definition mult_prod :: "nat multiset \<Rightarrow> nat" where
  "mult_prod p = (\<Prod>x\<in>set_mset p. count p x)"

definition M_ref :: "nat \<Rightarrow> nat \<Rightarrow> nat" where
  "M_ref k n = (\<Sum>p | p \<in> partitions n \<and> distinct_sizes p = k. mult_prod p)"


text \<open>
  The value \<open>M_k(n)\<close> read from an engine's result: \<open>Ms[n][k]\<close>, or nothing when the
  engine raised or a key is missing.
\<close>

definition M_of :: "error + (int \<rightharpoonup> (int \<rightharpoonup> int)) \<Rightarrow> int \<Rightarrow> int \<Rightarrow> int option" where
  "M_of res n k =
     (case res of
        Inl e \<Rightarrow> None
      | Inr Ms \<Rightarrow> (case Ms n of None \<Rightarrow> None | Some d \<Rightarrow> d k))"


text \<open>
  The largest number of distinct part sizes that a partition of \<open>n\<close> can have.
\<close>

definition max_distinct :: "nat \<Rightarrow> nat" where
  "max_distinct n = Max (distinct_sizes ` partitions n)"

text \<open>
  The table of reference values for \<open>0 \<le> n \<le> n_max\<close> and \<open>1 \<le> k \<le> K\<close>, the quartic
  detector's formula on the reference values, and the driver's pass criterion for a
  detector value \<open>val\<close> at \<open>n\<close>.
\<close>

definition M_row :: "int \<Rightarrow> int \<Rightarrow> (int \<rightharpoonup> int)" where
  "M_row K n = (\<lambda>k. if 1 \<le> k \<and> k \<le> K then Some (int (M_ref (nat k) (nat n))) else None)"

definition M_table :: "int \<Rightarrow> int \<Rightarrow> (int \<rightharpoonup> (int \<rightharpoonup> int))" where
  "M_table K n_max = (\<lambda>n. if 0 \<le> n \<and> n \<le> n_max then Some (M_row K n) else None)"

definition L4_ref :: "int \<Rightarrow> int" where
  "L4_ref n =
     (- 4305 * n ^ 3 + 12915 * n ^ 2 - 8610 * n) * int (M_ref 1 (nat n))
   + (- 2296 * n ^ 3 + 18368 * n ^ 2) * int (M_ref 2 (nat n))
   + (- 3200 * n ^ 3 + 48640 * n ^ 2) * int (M_ref 3 (nat n))
   + 967680 * n * int (M_ref 4 (nat n))"

definition passes :: "(int \<Rightarrow> bool) \<Rightarrow> int \<Rightarrow> int \<Rightarrow> bool" where
  "passes isprime val n \<longleftrightarrow> (isprime n \<and> val = 0) \<or> (\<not> isprime n \<and> val \<noteq> 0)"

text \<open>
  The recursive calls of \<open>rec\<close>: from the state \<open>(remaining, min_part, distinct_used)\<close>
  the loops call \<open>rec(remaining - m * i, i + 1, distinct_used + 1)\<close> for a part \<open>i\<close> in
  \<open>range(min_part, remaining + 1)\<close> and a multiplicity \<open>m\<close> in \<open>range(1, max_m + 1)\<close>,
  unless the part loop breaks. (An exception raised earlier in the loops can only remove
  calls.)
\<close>

inductive rec4_calls :: "int \<times> int \<times> int \<Rightarrow> int \<times> int \<times> int \<Rightarrow> bool" where
  "remaining \<noteq> 0 \<Longrightarrow> min_part \<le> i \<Longrightarrow> i < remaining + 1 \<Longrightarrow> \<not> distinct_used + 1 > 4
     \<Longrightarrow> i \<noteq> 0 \<Longrightarrow> 1 \<le> m \<Longrightarrow> m < remaining div i + 1
     \<Longrightarrow> rec4_calls (remaining, min_part, distinct_used)
           (remaining - m * i, i + 1, distinct_used + 1)"

inductive rec3_calls :: "int \<times> int \<times> int \<Rightarrow> int \<times> int \<times> int \<Rightarrow> bool" where
  "remaining \<noteq> 0 \<Longrightarrow> min_part \<le> i \<Longrightarrow> i < remaining + 1 \<Longrightarrow> \<not> distinct_used + 1 > 3
     \<Longrightarrow> i \<noteq> 0 \<Longrightarrow> 1 \<le> m \<Longrightarrow> m < remaining div i + 1
     \<Longrightarrow> rec3_calls (remaining, min_part, distinct_used)
           (remaining - m * i, i + 1, distinct_used + 1)"

text \<open>
  The loop invocations of one call \<open>rec(s)\<close>, read off the recursion relation that the
  definition of \<open>rec4\<close> (\<open>rec3\<close>) itself generates: the invocations of the part loop
  and of the multiplicity loop that are reached from the call at state \<open>s\<close> through loop
  invocations only. Lemmas \<open>rec4_calls_cover\<close> and \<open>rec3_calls_cover\<close> below show that
  every call of \<open>rec\<close> made from such an invocation is in \<open>rec4_calls\<close>
  (\<open>rec3_calls\<close>).
\<close>

inductive rec4_loop ::
  "int \<times> int \<times> int
     \<Rightarrow> int \<times> int \<times> int \<times> int list + int \<times> int \<times> int \<times> int \<times> int \<times> int list \<Rightarrow> bool"
  for s where
  "rec4_rec4_parts_rec4_mults_rel (Inr y) (Inl s) \<Longrightarrow> rec4_loop s y"
| "rec4_loop s x \<Longrightarrow> rec4_rec4_parts_rec4_mults_rel (Inr y) (Inr x) \<Longrightarrow> rec4_loop s y"

inductive rec3_loop ::
  "int \<times> int \<times> int
     \<Rightarrow> int \<times> int \<times> int \<times> int list + int \<times> int \<times> int \<times> int \<times> int \<times> int list \<Rightarrow> bool"
  for s where
  "rec3_rec3_parts_rec3_mults_rel (Inr y) (Inl s) \<Longrightarrow> rec3_loop s y"
| "rec3_loop s x \<Longrightarrow> rec3_rec3_parts_rec3_mults_rel (Inr y) (Inr x) \<Longrightarrow> rec3_loop s y"




text \<open>
  Auxiliary notions for the proofs: the partitions of \<open>n\<close> into parts not below \<open>a\<close>
  with \<open>j\<close> distinct part sizes, and their total weight.
\<close>

definition parts_from :: "nat \<Rightarrow> nat \<Rightarrow> nat \<Rightarrow> nat multiset set" where
  "parts_from a n j = {p. (\<forall>x\<in>#p. a \<le> x) \<and> sum_mset p = n \<and> distinct_sizes p = j}"

definition weight_from :: "nat \<Rightarrow> nat \<Rightarrow> nat \<Rightarrow> nat" where
  "weight_from a n j = (\<Sum>p\<in>parts_from a n j. mult_prod p)"

definition stat_entry :: "nat \<Rightarrow> nat \<Rightarrow> int \<Rightarrow> nat \<Rightarrow> int" where
  "stat_entry a n d k =
     (if k = 0 \<or> int k < d then 0 else int (weight_from a n (nat (int k - d))))"

section \<open>Evaluation of the quartic detector\<close>

lemma quartic_L4_eval:
  "quartic_L4 n Ms =
     Inr ((- 4305 * n ^ 3 + 12915 * n ^ 2 - 8610 * n) * dict_get Ms 1 0
        + (- 2296 * n ^ 3 + 18368 * n ^ 2) * dict_get Ms 2 0
        + (- 3200 * n ^ 3 + 48640 * n ^ 2) * dict_get Ms 3 0
        + 967680 * n * dict_get Ms 4 0)"
  by (simp add: quartic_L4_def COEFFS_def dict_index_def and_then_def Let_def)

section \<open>Partitions by smallest part\<close>

lemma size_le_sum_mset: "\<forall>x\<in>#p. 1 \<le> x \<Longrightarrow> size p \<le> sum_mset (p :: nat multiset)"
  by (induction p) auto

lemma elem_le_sum_mset: "x \<in># p \<Longrightarrow> x \<le> sum_mset (p :: nat multiset)"
  by (induction p) auto

lemma finite_bounded_msets: "finite {p :: nat multiset. set_mset p \<subseteq> {..n} \<and> size p \<le> n}"
proof -
  have "{p :: nat multiset. set_mset p \<subseteq> {..n} \<and> size p \<le> n}
          \<subseteq> mset ` {xs. set xs \<subseteq> {..n} \<and> length xs \<le> n}"
  proof
    fix p :: "nat multiset"
    assume p: "p \<in> {p. set_mset p \<subseteq> {..n} \<and> size p \<le> n}"
    obtain xs where xs: "mset xs = p" using ex_mset by blast
    with p have "set xs \<subseteq> {..n} \<and> length xs \<le> n" by auto
    with xs show "p \<in> mset ` {xs. set xs \<subseteq> {..n} \<and> length xs \<le> n}" by blast
  qed
  moreover have "finite {xs :: nat list. set xs \<subseteq> {..n} \<and> length xs \<le> n}"
    by (rule finite_lists_length_le) simp
  ultimately show ?thesis by (meson finite_imageI finite_subset)
qed

lemma positive_parts_bounded:
  fixes p :: "nat multiset"
  assumes "\<forall>x\<in>#p. 1 \<le> x" and "sum_mset p = n"
  shows "p \<in> {p. set_mset p \<subseteq> {..n} \<and> size p \<le> n}"
proof -
  have "size p \<le> n" using size_le_sum_mset assms by blast
  moreover have "set_mset p \<subseteq> {..n}" using elem_le_sum_mset assms(2) by auto
  ultimately show ?thesis by simp
qed

lemma finite_parts_from: "1 \<le> a \<Longrightarrow> finite (parts_from a n j)"
proof -
  assume a: "1 \<le> a"
  have "parts_from a n j \<subseteq> {p. set_mset p \<subseteq> {..n} \<and> size p \<le> n}"
  proof
    fix p assume "p \<in> parts_from a n j"
    then have ge: "\<forall>x\<in>#p. a \<le> x" and s: "sum_mset p = n"
      unfolding parts_from_def by blast+
    from ge a have "\<forall>x\<in>#p. 1 \<le> x" by auto
    then show "p \<in> {p. set_mset p \<subseteq> {..n} \<and> size p \<le> n}"
      using s by (rule positive_parts_bounded)
  qed
  then show ?thesis using finite_bounded_msets finite_subset by blast
qed

text \<open>Adding \<open>m\<close> copies of a new smallest part \<open>i\<close>.\<close>

lemma add_smallest:
  assumes m: "1 \<le> m" and q: "\<forall>x\<in>#q. Suc i \<le> x"
  defines "p \<equiv> replicate_mset m i + q"
  shows "Min_mset p = i" and "count p i = m" and "filter_mset (\<lambda>x. x \<noteq> i) p = q"
    and "sum_mset p = m * i + sum_mset q"
    and "distinct_sizes p = Suc (distinct_sizes q)"
    and "mult_prod p = m * mult_prod q"
proof -
  have notin: "i \<notin># q" using q by auto
  have set: "set_mset p = insert i (set_mset q)" using m by (auto simp: p_def)
  show "Min_mset p = i"
  proof (rule Min_eqI)
    show "finite (set_mset p)" by simp
    show "i \<in> set_mset p" using set by simp
    fix y assume "y \<in> set_mset p"
    then show "i \<le> y" using set q by auto
  qed
  show cnt: "count p i = m" using notin by (simp add: p_def count_eq_zero_iff)
  show "filter_mset (\<lambda>x. x \<noteq> i) p = q"
    by (rule multiset_eqI) (use notin in \<open>auto simp: p_def count_eq_zero_iff\<close>)
  show "sum_mset p = m * i + sum_mset q" by (simp add: p_def)
  show "distinct_sizes p = Suc (distinct_sizes q)"
    using notin by (simp add: distinct_sizes_def set)
  have "mult_prod p = count p i * (\<Prod>x\<in>set_mset q. count p x)"
    using notin by (simp add: mult_prod_def set)
  also have "(\<Prod>x\<in>set_mset q. count p x) = (\<Prod>x\<in>set_mset q. count q x)"
    by (rule prod.cong) (auto simp: p_def notin)
  finally show "mult_prod p = m * mult_prod q" by (simp add: cnt mult_prod_def)
qed

text \<open>Splitting off the smallest part of a non-empty partition.\<close>

lemma split_smallest:
  fixes p :: "nat multiset"
  assumes ne: "p \<noteq> {#}"
  defines "i \<equiv> Min_mset p"
  defines "q \<equiv> filter_mset (\<lambda>x. x \<noteq> i) p"
  shows "p = replicate_mset (count p i) i + q" and "1 \<le> count p i" and "\<forall>x\<in>#q. Suc i \<le> x"
    and "i \<in># p"
proof -
  show i: "i \<in># p" using ne by (simp add: i_def)
  then show "1 \<le> count p i" by (simp add: Suc_le_eq)
  have "p = filter_mset (\<lambda>x. x = i) p + filter_mset (\<lambda>x. x \<noteq> i) p"
    by (rule multiset_partition)
  then show "p = replicate_mset (count p i) i + q"
    by (simp add: q_def filter_eq_replicate_mset)
  show "\<forall>x\<in>#q. Suc i \<le> x"
  proof
    fix x assume "x \<in># q"
    then have "x \<in># p" "x \<noteq> i" by (auto simp: q_def)
    moreover from this have "i \<le> x" by (simp add: i_def)
    ultimately show "Suc i \<le> x" by simp
  qed
qed

lemma only_empty_sums_to_0:
  fixes p :: "nat multiset"
  assumes "1 \<le> a" and "\<forall>x\<in>#p. a \<le> x" and "sum_mset p = 0"
  shows "p = {#}"
proof (rule ccontr)
  assume "p \<noteq> {#}"
  then obtain x where x: "x \<in># p" by blast
  with assms(3) have "x = 0" by simp
  moreover from x assms(1,2) have "1 \<le> x" by force
  ultimately show False by simp
qed

lemma parts_from_0: "1 \<le> a \<Longrightarrow> parts_from a 0 j = (if j = 0 then {{#}} else {})"
proof -
  assume a: "1 \<le> a"
  have iff: "p \<in> parts_from a 0 j \<longleftrightarrow> p = {#} \<and> j = 0" for p
  proof
    assume "p \<in> parts_from a 0 j"
    then have ge: "\<forall>x\<in>#p. a \<le> x" and s: "sum_mset p = 0" and d: "distinct_sizes p = j"
      unfolding parts_from_def by blast+
    from a ge s have "p = {#}" by (rule only_empty_sums_to_0)
    with d show "p = {#} \<and> j = 0" by (simp add: distinct_sizes_def)
  next
    assume "p = {#} \<and> j = 0"
    then show "p \<in> parts_from a 0 j" by (simp add: parts_from_def distinct_sizes_def)
  qed
  show ?thesis
  proof (cases "j = 0")
    case True
    have "parts_from a 0 j = {{#}}"
      by (rule set_eqI) (use iff True in simp)
    with True show ?thesis by simp
  next
    case False
    have "parts_from a 0 j = {}"
      by (rule set_eqI) (use iff False in simp)
    with False show ?thesis by simp
  qed
qed

lemma weight_from_0: "1 \<le> a \<Longrightarrow> weight_from a 0 j = (if j = 0 then 1 else 0)"
  by (simp add: weight_from_def parts_from_0 mult_prod_def)

lemma parts_from_no_parts: "0 < n \<Longrightarrow> parts_from a n 0 = {}"
proof -
  assume n: "0 < n"
  have "p \<notin> parts_from a n 0" for p
  proof
    assume "p \<in> parts_from a n 0"
    then have s: "sum_mset p = n" and d: "card (set_mset p) = 0"
      unfolding parts_from_def distinct_sizes_def by blast+
    from d have "set_mset p = {}" by (simp only: card_0_eq [OF finite_set_mset])
    then have "p = {#}" by (simp only: set_mset_eq_empty_iff)
    with s n show False by simp
  qed
  then show ?thesis by blast
qed

lemma weight_from_no_parts: "0 < n \<Longrightarrow> weight_from a n 0 = 0"
  by (simp only: weight_from_def parts_from_no_parts sum.empty)

lemma weight_from_Suc:
  assumes a: "1 \<le> a" and n: "0 < n"
  shows "weight_from a n (Suc j) =
           (\<Sum>i = a..n. \<Sum>m = 1..n div i. m * weight_from (Suc i) (n - m * i) j)"
proof -
  let ?T = "SIGMA i:{a..n}. SIGMA m:{1..n div i}. parts_from (Suc i) (n - m * i) j"
  let ?to = "\<lambda>(i, m, q). replicate_mset m i + q"
  let ?from = "\<lambda>p. (Min_mset p, count p (Min_mset p), filter_mset (\<lambda>x. x \<noteq> Min_mset p) p)"
  have "(\<Sum>i = a..n. \<Sum>m = 1..n div i. m * weight_from (Suc i) (n - m * i) j)
        = (\<Sum>i = a..n. \<Sum>m = 1..n div i. \<Sum>q\<in>parts_from (Suc i) (n - m * i) j. m * mult_prod q)"
    by (simp add: weight_from_def sum_distrib_left)
  also have "\<dots> = (\<Sum>i = a..n. \<Sum>(m, q)\<in>(SIGMA m:{1..n div i}. parts_from (Suc i) (n - m * i) j). m * mult_prod q)"
    by (intro sum.cong refl, subst sum.Sigma) (auto simp: finite_parts_from)
  also have "\<dots> = (\<Sum>(i, m, q)\<in>?T. m * mult_prod q)"
    by (subst sum.Sigma) (auto simp: finite_parts_from)
  also have "\<dots> = (\<Sum>p\<in>parts_from a n (Suc j). mult_prod p)"
  proof (rule sum.reindex_bij_witness [where i = ?from and j = ?to])
    fix t assume t: "t \<in> ?T"
    obtain i m q where t_eq: "t = (i, m, q)" by (cases t) auto
    from t t_eq have i: "a \<le> i" "i \<le> n" and m: "1 \<le> m" "m \<le> n div i"
      and q: "\<forall>x\<in>#q. Suc i \<le> x" "sum_mset q = n - m * i" "distinct_sizes q = j"
      by (auto simp: parts_from_def)
    from i a have ipos: "0 < i" by simp
    from m ipos have mi: "m * i \<le> n" by (simp add: less_eq_div_iff_mult_less_eq)
    note A = add_smallest [OF m(1) q(1)]
    show "?from (?to t) = t" by (simp only: t_eq prod.case A)
    have "\<forall>x\<in>#replicate_mset m i + q. a \<le> x"
      using q(1) i(1) by (auto simp: Suc_le_eq)
    moreover have "sum_mset (replicate_mset m i + q) = n"
      using A(4) q(2) mi by linarith
    moreover have "distinct_sizes (replicate_mset m i + q) = Suc j"
      using A(5) q(3) by (simp only:)
    ultimately show "?to t \<in> parts_from a n (Suc j)"
      by (simp only: t_eq prod.case parts_from_def mem_Collect_eq)
    show "mult_prod (?to t) = (case t of (i, m, q) \<Rightarrow> m * mult_prod q)"
      by (simp only: t_eq prod.case A)
  next
    fix p assume p: "p \<in> parts_from a n (Suc j)"
    then have ge: "\<forall>x\<in>#p. a \<le> x" and s: "sum_mset p = n" and d: "distinct_sizes p = Suc j"
      unfolding parts_from_def by blast+
    from d have ne: "p \<noteq> {#}" by (auto simp: distinct_sizes_def)
    let ?i = "Min_mset p" and ?m = "count p (Min_mset p)"
    let ?q = "filter_mset (\<lambda>x. x \<noteq> Min_mset p) p"
    note S = split_smallest [OF ne]
    note A = add_smallest [OF S(2) S(3)]
    from S(4) ge have ai: "a \<le> ?i" by blast
    with a have ipos: "0 < ?i" by simp
    from S(1) have p_eq: "replicate_mset ?m ?i + ?q = p" by simp
    from A(4) s have sum: "n = ?m * ?i + sum_mset ?q" by (simp add: p_eq)
    then have mi: "?m * ?i \<le> n" by simp
    then have "?m \<le> n div ?i" using ipos by (simp add: less_eq_div_iff_mult_less_eq)
    moreover have "?i \<le> n" using S(4) s elem_le_sum_mset by blast
    moreover have "sum_mset ?q = n - ?m * ?i" using sum by simp
    moreover have "distinct_sizes ?q = j" using A(5) d by (simp add: p_eq)
    ultimately show "?from p \<in> ?T"
      using ai S(2) S(3)
      by (simp only: mem_Sigma_iff atLeastAtMost_iff parts_from_def mem_Collect_eq simp_thms)
    show "?to (?from p) = p" using p_eq by (simp only: prod.case)
  qed
  finally show ?thesis by (simp only: weight_from_def)
qed

lemma positive_iff_no_zero:
  fixes p :: "nat multiset"
  shows "0 \<notin># p \<longleftrightarrow> (\<forall>x\<in>#p. 1 \<le> x)"
proof
  assume z: "0 \<notin># p"
  show "\<forall>x\<in>#p. 1 \<le> x"
  proof
    fix x assume "x \<in># p"
    with z have "x \<noteq> 0" by (cases "x = 0") simp_all
    then show "1 \<le> x" by simp
  qed
next
  assume "\<forall>x\<in>#p. 1 \<le> x"
  then show "0 \<notin># p" by fastforce
qed

lemma partitions_parts_from: "{p \<in> partitions n. distinct_sizes p = k} = parts_from 1 n k"
  by (simp add: partitions_def parts_from_def positive_iff_no_zero)

lemma M_ref_weight_from: "M_ref k n = weight_from 1 n k"
  by (simp add: M_ref_def weight_from_def partitions_parts_from)

subsection \<open>The recurrence over integers\<close>

lemma int_interval_sum:
  "(\<Sum>i = int a..int b. f i) = (\<Sum>i = a..b. (f (int i) :: int))"
proof -
  have "{int a..int b} = int ` {a..b}" by (simp add: image_int_atLeastAtMost)
  then have "(\<Sum>i = int a..int b. f i) = sum f (int ` {a..b})" by simp
  also have "\<dots> = (\<Sum>i = a..b. f (int i))"
    by (simp add: sum.reindex o_def)
  finally show ?thesis .
qed

lemma weight_from_Suc_int:
  assumes "1 \<le> a" and "0 < n"
  shows "int (weight_from a n (Suc j)) =
           (\<Sum>i = int a..int n. \<Sum>m = 1..int n div i.
              m * int (weight_from (nat (i + 1)) (nat (int n - m * i)) j))"
proof -
  have inner: "(\<Sum>m = 1..int n div int i. m * int (weight_from (nat (int i + 1)) (nat (int n - m * int i)) j))
      = (\<Sum>m = 1..n div i. int (m * weight_from (Suc i) (n - m * i) j))" for i
  proof -
    have "(\<Sum>m = 1..int n div int i. m * int (weight_from (nat (int i + 1)) (nat (int n - m * int i)) j))
        = (\<Sum>m = int 1..int (n div i). m * int (weight_from (nat (int i + 1)) (nat (int n - m * int i)) j))"
      by (simp add: zdiv_int)
    also have "\<dots> = (\<Sum>m = 1..n div i. int m * int (weight_from (nat (int i + 1)) (nat (int n - int m * int i)) j))"
      by (rule int_interval_sum)
    also have "\<dots> = (\<Sum>m = 1..n div i. int (m * weight_from (Suc i) (n - m * i) j))"
    proof (rule sum.cong [OF refl])
      fix m
      have "nat (int i + 1) = Suc i" by simp
      moreover have "nat (int n - int m * int i) = n - m * i"
        by (metis nat_int of_nat_diff of_nat_mult nat_minus_as_int)
      ultimately show "int m * int (weight_from (nat (int i + 1)) (nat (int n - int m * int i)) j)
                     = int (m * weight_from (Suc i) (n - m * i) j)"
        by simp
    qed
    finally show ?thesis .
  qed
  have "int (weight_from a n (Suc j))
      = (\<Sum>i = a..n. \<Sum>m = 1..n div i. int (m * weight_from (Suc i) (n - m * i) j))"
    by (simp only: weight_from_Suc [OF assms] of_nat_sum)
  also have "\<dots> = (\<Sum>i = a..n. \<Sum>m = 1..int n div int i.
                      m * int (weight_from (nat (int i + 1)) (nat (int n - m * int i)) j))"
    by (simp only: inner)
  also have "\<dots> = (\<Sum>i = int a..int n. \<Sum>m = 1..int n div i.
                      m * int (weight_from (nat (i + 1)) (nat (int n - m * i)) j))"
    by (rule int_interval_sum [symmetric])
  finally show ?thesis .
qed

lemma stat_entry_0: "1 \<le> a \<Longrightarrow> stat_entry a 0 d k = (if k \<noteq> 0 \<and> int k = d then 1 else 0)"
  by (auto simp: stat_entry_def weight_from_0)

lemma stat_entry_step:
  assumes a: "1 \<le> a" and n: "0 < n"
  shows "stat_entry a n d k =
           (\<Sum>i = int a..int n. \<Sum>m = 1..int n div i.
              m * stat_entry (nat (i + 1)) (nat (int n - m * i)) (d + 1) k)"
proof -
  consider "k = 0 \<or> int k < d" | "k \<noteq> 0" "int k = d" | "k \<noteq> 0" "d < int k" by linarith
  then show ?thesis
  proof cases
    case 1
    then show ?thesis by (auto simp: stat_entry_def)
  next
    case 2
    then show ?thesis using n by (simp add: stat_entry_def weight_from_no_parts)
  next
    case 3
    then have "nat (int k - d) = Suc (nat (int k - (d + 1)))" by simp
    with 3 show ?thesis
      by (simp add: stat_entry_def weight_from_Suc_int [OF a n])
  qed
qed

lemma stat_entry_pruned:
  assumes "0 < n" and "int k < d + 1"
  shows "stat_entry a n d k = 0"
proof (cases "k = 0 \<or> int k < d")
  case True
  then show ?thesis by (auto simp: stat_entry_def)
next
  case False
  with assms(2) have "nat (int k - d) = 0" by simp
  with False assms(1) show ?thesis by (simp add: stat_entry_def weight_from_no_parts)
qed


section \<open>What the engines compute\<close>

text \<open>
  The recursive equations are used by explicit unfolding only.
\<close>

declare rec4.simps [simp del] rec4_parts.simps [simp del] rec4_mults.simps [simp del]
declare rec3.simps [simp del] rec3_parts.simps [simp del] rec3_mults.simps [simp del]

lemma length5E: "length xs = 5 \<Longrightarrow> \<exists>a b c d e. xs = [a, b, c, d, e]"
  by (simp add: numeral_eq_Suc length_Suc_conv) blast

lemma length4E: "length xs = 4 \<Longrightarrow> \<exists>a b c d. xs = [a, b, c, d]"
  by (simp add: numeral_eq_Suc length_Suc_conv) blast

lemma upt5: "[0..<5] = [0, 1, 2, 3, 4]"
  by (simp add: upt_rec numeral_eq_Suc)

lemma upto14: "[1..4] = [1, 2, 3, (4::int)]"
  by (simp add: upto.simps)

lemma add_child4_eq:
  assumes "length V = 5" and "length child = 5" and "child ! 0 = 0"
  shows "add_child4 m child V = map (\<lambda>k. V ! k + m * child ! k) [0..<5]"
proof -
  from assms(1) obtain v0 v1 v2 v3 v4 where V: "V = [v0, v1, v2, v3, v4]"
    using length5E by blast
  from assms(2) obtain c0 c1 c2 c3 c4 where C: "child = [c0, c1, c2, c3, c4]"
    using length5E by blast
  from assms(3) C have c0: "c0 = 0" by simp
  show ?thesis
    by (simp add: add_child4_def V C c0 upt5 upto14 numeral_eq_Suc)
qed



lemma int_sum_split_first:
  fixes m mx :: int
  assumes "m \<le> mx"
  shows "(\<Sum>x = m..mx. f x) = (f m :: int) + (\<Sum>x = m + 1..mx. f x)"
proof -
  from assms have "{m..mx} = insert m {m + 1..mx}" by auto
  then show ?thesis by simp
qed

lemma map_upt5_nth: "length V = 5 \<Longrightarrow> map (\<lambda>k. V ! k) [0..<5] = V"
  by (metis map_nth)

lemma rec4_mults_eq:
  assumes "length V = 5"
    and "\<And>m'. m \<le> m' \<Longrightarrow> m' \<le> mx \<Longrightarrow>
           rec4 (r - m' * i) (i + 1) (d + 1) = Inr (C m') \<and> length (C m') = 5 \<and> C m' ! 0 = 0"
  shows "rec4_mults r d i mx m V =
           Inr (map (\<lambda>k. V ! k + (\<Sum>m' = m..mx. m' * C m' ! k)) [0..<5])"
  using assms
proof (induction "nat (mx + 1 - m)" arbitrary: m V)
  case 0
  then have "\<not> m < mx + 1" by simp
  then have "rec4_mults r d i mx m V = Inr V" and "{m..mx} = {}"
    by (simp_all add: rec4_mults.simps)
  with 0(2) show ?case by (simp add: map_upt5_nth)
next
  case (Suc x)
  then have le: "m \<le> mx" by simp
  from Suc.prems(2) [OF order_refl le]
  have c: "rec4 (r - m * i) (i + 1) (d + 1) = Inr (C m)" "length (C m) = 5" "C m ! 0 = 0"
    by simp_all
  let ?V = "add_child4 m (C m) V"
  have V': "?V = map (\<lambda>k. V ! k + m * C m ! k) [0..<5]"
    using Suc.prems(1) c(2,3) by (rule add_child4_eq)
  have step: "rec4_mults r d i mx m V = rec4_mults r d i mx (m + 1) ?V"
    using le c(1) by (subst rec4_mults.simps) simp
  have "rec4_mults r d i mx (m + 1) ?V =
          Inr (map (\<lambda>k. ?V ! k + (\<Sum>m' = m + 1..mx. m' * C m' ! k)) [0..<5])"
  proof (rule Suc.hyps(1))
    show "x = nat (mx + 1 - (m + 1))" using Suc.hyps(2) by simp
    show "length ?V = 5" by (simp add: V')
    fix m' assume "m + 1 \<le> m'" "m' \<le> mx"
    then show "rec4 (r - m' * i) (i + 1) (d + 1) = Inr (C m') \<and> length (C m') = 5 \<and> C m' ! 0 = 0"
      using Suc.prems(2) [of m'] by simp
  qed
  also have "map (\<lambda>k. ?V ! k + (\<Sum>m' = m + 1..mx. m' * C m' ! k)) [0..<5]
           = map (\<lambda>k. V ! k + (\<Sum>m' = m..mx. m' * C m' ! k)) [0..<5]"
    by (rule map_cong [OF refl]) (simp add: V' int_sum_split_first [OF le])
  finally show ?case using step by simp
qed

lemma rec4_parts_eq:
  assumes "length V = 5" and "d + 1 \<le> 4" and "1 \<le> i"
    and "\<And>i' m. i \<le> i' \<Longrightarrow> i' \<le> r \<Longrightarrow> 1 \<le> m \<Longrightarrow> m \<le> r div i' \<Longrightarrow>
           rec4 (r - m * i') (i' + 1) (d + 1) = Inr (C i' m) \<and> length (C i' m) = 5 \<and> C i' m ! 0 = 0"
  shows "rec4_parts r d i V =
           Inr (map (\<lambda>k. V ! k + (\<Sum>i' = i..r. \<Sum>m = 1..r div i'. m * C i' m ! k)) [0..<5])"
  using assms
proof (induction "nat (r + 1 - i)" arbitrary: i V)
  case 0
  then have "\<not> i < r + 1" by simp
  then have "rec4_parts r d i V = Inr V" and "{i..r} = {}"
    by (simp_all add: rec4_parts.simps)
  with 0(2) show ?case by (simp add: map_upt5_nth)
next
  case (Suc x)
  then have le: "i \<le> r" by simp
  let ?V = "map (\<lambda>k. V ! k + (\<Sum>m = 1..r div i. m * C i m ! k)) [0..<5]"
  have inner: "rec4_mults r d i (r div i) 1 V = Inr ?V"
  proof (rule rec4_mults_eq [OF Suc.prems(1)])
    fix m' assume "1 \<le> m'" "m' \<le> r div i"
    then show "rec4 (r - m' * i) (i + 1) (d + 1) = Inr (C i m') \<and> length (C i m') = 5 \<and> C i m' ! 0 = 0"
      using Suc.prems(4) [of i m'] le by simp
  qed
  have step: "rec4_parts r d i V = rec4_parts r d (i + 1) ?V"
    using le Suc.prems(2,3) inner by (subst rec4_parts.simps) simp
  have "rec4_parts r d (i + 1) ?V =
          Inr (map (\<lambda>k. ?V ! k + (\<Sum>i' = i + 1..r. \<Sum>m = 1..r div i'. m * C i' m ! k)) [0..<5])"
  proof (rule Suc.hyps(1))
    show "x = nat (r + 1 - (i + 1))" using Suc.hyps(2) by simp
    show "length ?V = 5" by simp
    show "d + 1 \<le> 4" by (rule Suc.prems(2))
    show "1 \<le> i + 1" using Suc.prems(3) by simp
    fix i' m assume "i + 1 \<le> i'" "i' \<le> r" "1 \<le> m" "m \<le> r div i'"
    then show "rec4 (r - m * i') (i' + 1) (d + 1) = Inr (C i' m) \<and> length (C i' m) = 5 \<and> C i' m ! 0 = 0"
      using Suc.prems(4) [of i' m] by simp
  qed
  also have "map (\<lambda>k. ?V ! k + (\<Sum>i' = i + 1..r. \<Sum>m = 1..r div i'. m * C i' m ! k)) [0..<5]
           = map (\<lambda>k. V ! k + (\<Sum>i' = i..r. \<Sum>m = 1..r div i'. m * C i' m ! k)) [0..<5]"
    by (rule map_cong [OF refl]) (simp add: int_sum_split_first [OF le])
  finally show ?case using step by simp
qed

lemma rec4_base:
  "rec4 0 mp d = Inr (map (\<lambda>k. if k \<noteq> 0 \<and> int k = d then 1 else 0) [0..<5])"
proof -
  consider "d = 1" | "d = 2" | "d = 3" | "d = 4" | "d < 1 \<or> 4 < d" by linarith
  then show ?thesis
    by cases (auto simp: rec4.simps upt5)
qed

lemma rec4_pruned:
  assumes "r \<noteq> 0" and "4 < d + 1"
  shows "rec4 r mp d = Inr [0, 0, 0, 0, 0]"
  using assms by (simp add: rec4.simps rec4_parts.simps)

lemma rec4_step:
  assumes "r \<noteq> 0" and "d + 1 \<le> 4" and "1 \<le> mp"
    and "\<And>i m. mp \<le> i \<Longrightarrow> i \<le> r \<Longrightarrow> 1 \<le> m \<Longrightarrow> m \<le> r div i \<Longrightarrow>
           rec4 (r - m * i) (i + 1) (d + 1) = Inr (C i m) \<and> length (C i m) = 5 \<and> C i m ! 0 = 0"
  shows "rec4 r mp d =
           Inr (map (\<lambda>k. \<Sum>i = mp..r. \<Sum>m = 1..r div i. m * C i m ! k) [0..<5])"
proof -
  have "rec4 r mp d = rec4_parts r d mp [0, 0, 0, 0, 0]"
    using assms(1) by (simp add: rec4.simps)
  also have "\<dots> = Inr (map (\<lambda>k. [0, 0, 0, 0, 0] ! k
                 + (\<Sum>i = mp..r. \<Sum>m = 1..r div i. m * C i m ! k)) [0..<5])"
    by (rule rec4_parts_eq) (use assms in simp_all)
  also have "map (\<lambda>k. [0, 0, 0, 0, 0] ! k + (\<Sum>i = mp..r. \<Sum>m = 1..r div i. m * C i m ! k)) [0..<5]
           = map (\<lambda>k. \<Sum>i = mp..r. \<Sum>m = 1..r div i. m * C i m ! k) [0..<5]"
    by (simp add: upt5)
  finally show ?thesis .
qed

lemma rec4_value:
  "1 \<le> a \<Longrightarrow> rec4 (int n) (int a) d = Inr (map (stat_entry a n d) [0..<5])"
proof (induction n arbitrary: a d rule: less_induct)
  case (less n)
  show ?case
  proof (cases "n = 0")
    case True
    have "rec4 (int n) (int a) d = Inr (map (\<lambda>k. if k \<noteq> 0 \<and> int k = d then 1 else 0) [0..<5])"
      using True rec4_base [of "int a" d] by simp
    also have "map (\<lambda>k. if k \<noteq> 0 \<and> int k = d then 1 else 0) [0..<5] = map (stat_entry a n d) [0..<5]"
      using True less.prems by (simp add: stat_entry_0)
    finally show ?thesis .
  next
    case False
    then have npos: "0 < n" and rne: "int n \<noteq> 0" by simp_all
    show ?thesis
    proof (cases "4 < d + 1")
      case True
      have "rec4 (int n) (int a) d = Inr [0, 0, 0, 0, 0]"
        using rne True by (rule rec4_pruned)
      also have "[0, 0, 0, 0, 0] = map (stat_entry a n d) [0..<5]"
        using npos True by (simp add: upt5 stat_entry_pruned)
      finally show ?thesis .
    next
      case False
      then have d: "d + 1 \<le> 4" by simp
      let ?C = "\<lambda>i m. map (stat_entry (nat (i + 1)) (nat (int n - m * i)) (d + 1)) [0..<5]"
      have "rec4 (int n) (int a) d =
              Inr (map (\<lambda>k. \<Sum>i = int a..int n. \<Sum>m = 1..int n div i. m * ?C i m ! k) [0..<5])"
      proof (rule rec4_step [OF rne d])
        show "1 \<le> int a" using less.prems by simp
        fix i m :: int
        assume i: "int a \<le> i" "i \<le> int n" and m: "1 \<le> m" "m \<le> int n div i"
        from i less.prems have ipos: "0 < i" by simp
        have "m * i \<le> (int n div i) * i" using m(2) ipos by (simp add: mult_right_mono)
        also have "\<dots> \<le> int n" using ipos
          by (metis mult.commute div_mult_mod_eq le_add_same_cancel1 pos_mod_sign)
        finally have mi: "m * i \<le> int n" .
        have "0 < m * i" using m(1) ipos by simp
        with mi have lt: "nat (int n - m * i) < n" by linarith
        have "rec4 (int (nat (int n - m * i))) (int (nat (i + 1))) (d + 1) = Inr (?C i m)"
          by (rule less.IH [OF lt]) (use ipos in simp)
        moreover have "int (nat (int n - m * i)) = int n - m * i" using mi by simp
        moreover have "int (nat (i + 1)) = i + 1" using ipos by simp
        ultimately have "rec4 (int n - m * i) (i + 1) (d + 1) = Inr (?C i m)" by simp
        moreover have "?C i m ! 0 = 0" by (simp add: upt5 stat_entry_def)
        ultimately show "rec4 (int n - m * i) (i + 1) (d + 1) = Inr (?C i m) \<and> length (?C i m) = 5 \<and> ?C i m ! 0 = 0"
          by simp
      qed
      also have "map (\<lambda>k. \<Sum>i = int a..int n. \<Sum>m = 1..int n div i. m * ?C i m ! k) [0..<5]
               = map (stat_entry a n d) [0..<5]"
      proof (rule map_cong [OF refl])
        fix k assume "k \<in> set [0..<5]"
        then have k: "k < 5" by simp
        then have "?C i m ! k = stat_entry (nat (i + 1)) (nat (int n - m * i)) (d + 1) k" for i m
          by simp
        then show "(\<Sum>i = int a..int n. \<Sum>m = 1..int n div i. m * ?C i m ! k) = stat_entry a n d k"
          by (simp only: stat_entry_step [OF less.prems npos, of d k])
      qed
      finally show ?thesis .
    qed
  qed
qed

lemma upt4: "[0..<4] = [0, 1, 2, 3]"
  by (simp add: upt_rec numeral_eq_Suc)

lemma upto13: "[1..3] = [1, 2, (3::int)]"
  by (simp add: upto.simps)

lemma map_upt4_nth: "length V = 4 \<Longrightarrow> map (\<lambda>k. V ! k) [0..<4] = V"
  by (metis map_nth)

lemma add_child3_eq:
  assumes "length V = 4" and "length child = 4" and "child ! 0 = 0" and "1 \<le> m"
  shows "add_child3 m child V = map (\<lambda>k. V ! k + m * child ! k) [0..<4]"
proof -
  from assms(1) obtain v0 v1 v2 v3 where V: "V = [v0, v1, v2, v3]"
    using length4E by blast
  from assms(2) obtain c0 c1 c2 c3 where C: "child = [c0, c1, c2, c3]"
    using length4E by blast
  from assms(3) C have c0: "c0 = 0" by simp
  show ?thesis
    using assms(4) by (simp add: add_child3_def V C c0 upt4 upto13 numeral_eq_Suc)
qed



lemma rec3_mults_eq:
  assumes "length V = 4" and "1 \<le> m"
    and "\<And>m'. m \<le> m' \<Longrightarrow> m' \<le> mx \<Longrightarrow>
           rec3 (r - m' * i) (i + 1) (d + 1) = Inr (C m') \<and> length (C m') = 4 \<and> C m' ! 0 = 0"
  shows "rec3_mults r d i mx m V =
           Inr (map (\<lambda>k. V ! k + (\<Sum>m' = m..mx. m' * C m' ! k)) [0..<4])"
  using assms
proof (induction "nat (mx + 1 - m)" arbitrary: m V)
  case 0
  then have "\<not> m < mx + 1" by simp
  then have "rec3_mults r d i mx m V = Inr V" and "{m..mx} = {}"
    by (simp_all add: rec3_mults.simps)
  with 0(2) show ?case by (simp add: map_upt4_nth)
next
  case (Suc x)
  then have le: "m \<le> mx" by simp
  from Suc.prems(3) [OF order_refl le]
  have c: "rec3 (r - m * i) (i + 1) (d + 1) = Inr (C m)" "length (C m) = 4" "C m ! 0 = 0"
    by simp_all
  let ?V = "add_child3 m (C m) V"
  have V': "?V = map (\<lambda>k. V ! k + m * C m ! k) [0..<4]"
    using Suc.prems(1) c(2,3) Suc.prems(2) by (rule add_child3_eq)
  have step: "rec3_mults r d i mx m V = rec3_mults r d i mx (m + 1) ?V"
    using le c(1) by (subst rec3_mults.simps) simp
  have "rec3_mults r d i mx (m + 1) ?V =
          Inr (map (\<lambda>k. ?V ! k + (\<Sum>m' = m + 1..mx. m' * C m' ! k)) [0..<4])"
  proof (rule Suc.hyps(1))
    show "x = nat (mx + 1 - (m + 1))" using Suc.hyps(2) by simp
    show "length ?V = 4" by (simp add: V')
    show "1 \<le> m + 1" using Suc.prems(2) by simp
    fix m' assume "m + 1 \<le> m'" "m' \<le> mx"
    then show "rec3 (r - m' * i) (i + 1) (d + 1) = Inr (C m') \<and> length (C m') = 4 \<and> C m' ! 0 = 0"
      using Suc.prems(3) [of m'] by simp
  qed
  also have "map (\<lambda>k. ?V ! k + (\<Sum>m' = m + 1..mx. m' * C m' ! k)) [0..<4]
           = map (\<lambda>k. V ! k + (\<Sum>m' = m..mx. m' * C m' ! k)) [0..<4]"
    by (rule map_cong [OF refl]) (simp add: V' int_sum_split_first [OF le])
  finally show ?case using step by simp
qed

lemma rec3_parts_eq:
  assumes "length V = 4" and "d + 1 \<le> 3" and "1 \<le> i"
    and "\<And>i' m. i \<le> i' \<Longrightarrow> i' \<le> r \<Longrightarrow> 1 \<le> m \<Longrightarrow> m \<le> r div i' \<Longrightarrow>
           rec3 (r - m * i') (i' + 1) (d + 1) = Inr (C i' m) \<and> length (C i' m) = 4 \<and> C i' m ! 0 = 0"
  shows "rec3_parts r d i V =
           Inr (map (\<lambda>k. V ! k + (\<Sum>i' = i..r. \<Sum>m = 1..r div i'. m * C i' m ! k)) [0..<4])"
  using assms
proof (induction "nat (r + 1 - i)" arbitrary: i V)
  case 0
  then have "\<not> i < r + 1" by simp
  then have "rec3_parts r d i V = Inr V" and "{i..r} = {}"
    by (simp_all add: rec3_parts.simps)
  with 0(2) show ?case by (simp add: map_upt4_nth)
next
  case (Suc x)
  then have le: "i \<le> r" by simp
  let ?V = "map (\<lambda>k. V ! k + (\<Sum>m = 1..r div i. m * C i m ! k)) [0..<4]"
  have inner: "rec3_mults r d i (r div i) 1 V = Inr ?V"
  proof (rule rec3_mults_eq [OF Suc.prems(1) order_refl])
    fix m' assume "1 \<le> m'" "m' \<le> r div i"
    then show "rec3 (r - m' * i) (i + 1) (d + 1) = Inr (C i m') \<and> length (C i m') = 4 \<and> C i m' ! 0 = 0"
      using Suc.prems(4) [of i m'] le by simp
  qed
  have step: "rec3_parts r d i V = rec3_parts r d (i + 1) ?V"
    using le Suc.prems(2,3) inner by (subst rec3_parts.simps) simp
  have "rec3_parts r d (i + 1) ?V =
          Inr (map (\<lambda>k. ?V ! k + (\<Sum>i' = i + 1..r. \<Sum>m = 1..r div i'. m * C i' m ! k)) [0..<4])"
  proof (rule Suc.hyps(1))
    show "x = nat (r + 1 - (i + 1))" using Suc.hyps(2) by simp
    show "length ?V = 4" by simp
    show "d + 1 \<le> 3" by (rule Suc.prems(2))
    show "1 \<le> i + 1" using Suc.prems(3) by simp
    fix i' m assume "i + 1 \<le> i'" "i' \<le> r" "1 \<le> m" "m \<le> r div i'"
    then show "rec3 (r - m * i') (i' + 1) (d + 1) = Inr (C i' m) \<and> length (C i' m) = 4 \<and> C i' m ! 0 = 0"
      using Suc.prems(4) [of i' m] by simp
  qed
  also have "map (\<lambda>k. ?V ! k + (\<Sum>i' = i + 1..r. \<Sum>m = 1..r div i'. m * C i' m ! k)) [0..<4]
           = map (\<lambda>k. V ! k + (\<Sum>i' = i..r. \<Sum>m = 1..r div i'. m * C i' m ! k)) [0..<4]"
    by (rule map_cong [OF refl]) (simp add: int_sum_split_first [OF le])
  finally show ?case using step by simp
qed

lemma rec3_base:
  "rec3 0 mp d = Inr (map (\<lambda>k. if k \<noteq> 0 \<and> int k = d then 1 else 0) [0..<4])"
proof -
  consider "d = 1" | "d = 2" | "d = 3" | "d < 1 \<or> 3 < d" by linarith
  then show ?thesis
    by cases (auto simp: rec3.simps upt4)
qed

lemma rec3_pruned:
  assumes "r \<noteq> 0" and "3 < d + 1"
  shows "rec3 r mp d = Inr [0, 0, 0, 0]"
  using assms by (simp add: rec3.simps rec3_parts.simps)

lemma rec3_step:
  assumes "r \<noteq> 0" and "d + 1 \<le> 3" and "1 \<le> mp"
    and "\<And>i m. mp \<le> i \<Longrightarrow> i \<le> r \<Longrightarrow> 1 \<le> m \<Longrightarrow> m \<le> r div i \<Longrightarrow>
           rec3 (r - m * i) (i + 1) (d + 1) = Inr (C i m) \<and> length (C i m) = 4 \<and> C i m ! 0 = 0"
  shows "rec3 r mp d =
           Inr (map (\<lambda>k. \<Sum>i = mp..r. \<Sum>m = 1..r div i. m * C i m ! k) [0..<4])"
proof -
  have "rec3 r mp d = rec3_parts r d mp [0, 0, 0, 0]"
    using assms(1) by (simp add: rec3.simps)
  also have "\<dots> = Inr (map (\<lambda>k. [0, 0, 0, 0] ! k
                 + (\<Sum>i = mp..r. \<Sum>m = 1..r div i. m * C i m ! k)) [0..<4])"
    by (rule rec3_parts_eq) (use assms in simp_all)
  also have "map (\<lambda>k. [0, 0, 0, 0] ! k + (\<Sum>i = mp..r. \<Sum>m = 1..r div i. m * C i m ! k)) [0..<4]
           = map (\<lambda>k. \<Sum>i = mp..r. \<Sum>m = 1..r div i. m * C i m ! k) [0..<4]"
    by (simp add: upt4)
  finally show ?thesis .
qed

lemma rec3_value:
  "1 \<le> a \<Longrightarrow> rec3 (int n) (int a) d = Inr (map (stat_entry a n d) [0..<4])"
proof (induction n arbitrary: a d rule: less_induct)
  case (less n)
  show ?case
  proof (cases "n = 0")
    case True
    have "rec3 (int n) (int a) d = Inr (map (\<lambda>k. if k \<noteq> 0 \<and> int k = d then 1 else 0) [0..<4])"
      using True rec3_base [of "int a" d] by simp
    also have "map (\<lambda>k. if k \<noteq> 0 \<and> int k = d then 1 else 0) [0..<4] = map (stat_entry a n d) [0..<4]"
      using True less.prems by (simp add: stat_entry_0)
    finally show ?thesis .
  next
    case False
    then have npos: "0 < n" and rne: "int n \<noteq> 0" by simp_all
    show ?thesis
    proof (cases "3 < d + 1")
      case True
      have "rec3 (int n) (int a) d = Inr [0, 0, 0, 0]"
        using rne True by (rule rec3_pruned)
      also have "[0, 0, 0, 0] = map (stat_entry a n d) [0..<4]"
        using npos True by (simp add: upt4 stat_entry_pruned)
      finally show ?thesis .
    next
      case False
      then have d: "d + 1 \<le> 3" by simp
      let ?C = "\<lambda>i m. map (stat_entry (nat (i + 1)) (nat (int n - m * i)) (d + 1)) [0..<4]"
      have "rec3 (int n) (int a) d =
              Inr (map (\<lambda>k. \<Sum>i = int a..int n. \<Sum>m = 1..int n div i. m * ?C i m ! k) [0..<4])"
      proof (rule rec3_step [OF rne d])
        show "1 \<le> int a" using less.prems by simp
        fix i m :: int
        assume i: "int a \<le> i" "i \<le> int n" and m: "1 \<le> m" "m \<le> int n div i"
        from i less.prems have ipos: "0 < i" by simp
        have "m * i \<le> (int n div i) * i" using m(2) ipos by (simp add: mult_right_mono)
        also have "\<dots> \<le> int n" using ipos
          by (metis mult.commute div_mult_mod_eq le_add_same_cancel1 pos_mod_sign)
        finally have mi: "m * i \<le> int n" .
        have "0 < m * i" using m(1) ipos by simp
        with mi have lt: "nat (int n - m * i) < n" by linarith
        have "rec3 (int (nat (int n - m * i))) (int (nat (i + 1))) (d + 1) = Inr (?C i m)"
          by (rule less.IH [OF lt]) (use ipos in simp)
        moreover have "int (nat (int n - m * i)) = int n - m * i" using mi by simp
        moreover have "int (nat (i + 1)) = i + 1" using ipos by simp
        ultimately have "rec3 (int n - m * i) (i + 1) (d + 1) = Inr (?C i m)" by simp
        moreover have "?C i m ! 0 = 0" by (simp add: upt4 stat_entry_def)
        ultimately show "rec3 (int n - m * i) (i + 1) (d + 1) = Inr (?C i m) \<and> length (?C i m) = 4 \<and> ?C i m ! 0 = 0"
          by simp
      qed
      also have "map (\<lambda>k. \<Sum>i = int a..int n. \<Sum>m = 1..int n div i. m * ?C i m ! k) [0..<4]
               = map (stat_entry a n d) [0..<4]"
      proof (rule map_cong [OF refl])
        fix k assume "k \<in> set [0..<4]"
        then have k: "k < 4" by simp
        then have "?C i m ! k = stat_entry (nat (i + 1)) (nat (int n - m * i)) (d + 1) k" for i m
          by simp
        then show "(\<Sum>i = int a..int n. \<Sum>m = 1..int n div i. m * ?C i m ! k) = stat_entry a n d k"
          by (simp only: stat_entry_step [OF less.prems npos, of d k])
      qed
      finally show ?thesis .
    qed
  qed
qed

section \<open>Claims about the detector evaluators\<close>

text \<open>
  C2, as stated: for every \<open>n \<ge> 2\<close> and all \<open>M1\<close>, \<open>M2\<close>, \<open>M3\<close> the cubic detector
  returns \<open>(n - 1)(n - 2)(M1 + M2) - 5(n - 1) M2 - 80 M3\<close>. This fails at \<open>n = 2\<close>: the
  guard \<open>if n < 3: return 0\<close> returns 0, while the formula gives \<open>- 5 M2 - 80 M3\<close>, here
  \<open>- 5\<close>.
\<close>

theorem binomial_cubic_detector_at_2_counterexample:
  "binomial_cubic_detector 2 [1 \<mapsto> 3, 2 \<mapsto> 1, 3 \<mapsto> 0]
     \<noteq> (2 - 1) * (2 - 2) * (3 + 1) - 5 * (2 - 1) * 1 - 80 * 0"
  by (simp add: binomial_cubic_detector_def)

text \<open>
  C2, amended: for every integer \<open>n \<ge> 3\<close> and all integers \<open>M1\<close>, \<open>M2\<close>, \<open>M3\<close>,
  \<open>binomial_cubic_detector(n, {1: M1, 2: M2, 3: M3})\<close> returns exactly
  \<open>(n - 1)(n - 2)(M1 + M2) - 5(n - 1) M2 - 80 M3\<close>.
\<close>

theorem binomial_cubic_detector_formula:
  "3 \<le> n \<Longrightarrow>
     binomial_cubic_detector n [1 \<mapsto> M1, 2 \<mapsto> M2, 3 \<mapsto> M3]
       = (n - 1) * (n - 2) * (M1 + M2) - 5 * (n - 1) * M2 - 80 * M3"
  by (simp add: binomial_cubic_detector_def dict_get_def)

theorem binomial_cubic_detector_formula_witness:
  "(3::int) \<le> 7 \<and>
   binomial_cubic_detector 7 [1 \<mapsto> 8, 2 \<mapsto> 15, 3 \<mapsto> 5]
     = (7 - 1) * (7 - 2) * (8 + 15) - 5 * (7 - 1) * 15 - 80 * 5"
  using binomial_cubic_detector_formula [of 7 8 15 5] by simp

text \<open>
  C3: for every integer \<open>n\<close> (in particular every \<open>n \<ge> 0\<close>) and every statistics
  mapping, \<open>quartic_L4\<close> raises nothing and returns
  \<open>(-4305 n^3 + 12915 n^2 - 8610 n) M1 + (-2296 n^3 + 18368 n^2) M2
    + (-3200 n^3 + 48640 n^2) M3 + 967680 n M4\<close>,
  where \<open>M_k\<close> is the mapping's value at \<open>k\<close>, or 0 when the key \<open>k\<close> is absent.
\<close>

theorem quartic_L4_formula:
  "quartic_L4 n Ms_for_n =
     Inr ((- 4305 * n ^ 3 + 12915 * n ^ 2 - 8610 * n)
            * (case Ms_for_n 1 of None \<Rightarrow> 0 | Some M1 \<Rightarrow> M1)
        + (- 2296 * n ^ 3 + 18368 * n ^ 2)
            * (case Ms_for_n 2 of None \<Rightarrow> 0 | Some M2 \<Rightarrow> M2)
        + (- 3200 * n ^ 3 + 48640 * n ^ 2)
            * (case Ms_for_n 3 of None \<Rightarrow> 0 | Some M3 \<Rightarrow> M3)
        + 967680 * n * (case Ms_for_n 4 of None \<Rightarrow> 0 | Some M4 \<Rightarrow> M4))"
  by (simp add: quartic_L4_eval dict_get_def)

theorem quartic_L4_formula_witness:
  "quartic_L4 2 [1 \<mapsto> 3, 3 \<mapsto> 7] = Inr 1182720"
  using quartic_L4_formula [of 2 "[1 \<mapsto> 3, 3 \<mapsto> 7]"] by simp

text \<open>
  C10: for every \<open>n < 3\<close> and every statistics mapping the cubic detector returns 0. In
  particular the cubic driver's row for \<open>n = 2\<close> has the value 0 and passes exactly when
  the primality test says that 2 is prime, whatever the statistics stored for 2 are.
\<close>

theorem binomial_cubic_detector_below_3:
  "(n < 3 \<longrightarrow> binomial_cubic_detector n Ms_for_n = 0) \<and>
   (Ms 2 = Some Ms_for_2 \<longrightarrow>
      main_loop isprime Ms [2] failures out =
        Inr (if isprime 2 then failures else failures @ [2], out @ [(2, isprime 2, 0, isprime 2)]))"
  by (simp add: binomial_cubic_detector_def dict_index_def)

theorem binomial_cubic_detector_below_3_witness:
  "(2::int) < 3 \<and> binomial_cubic_detector 2 [1 \<mapsto> 3, 2 \<mapsto> 11, 3 \<mapsto> 13] = 0
   \<and> [2 \<mapsto> [1 \<mapsto> 3, 2 \<mapsto> 11, 3 \<mapsto> (13::int)]] (2::int) = Some [1 \<mapsto> 3, 2 \<mapsto> 11, 3 \<mapsto> 13]
   \<and> main_loop (\<lambda>n. n = 2) [2 \<mapsto> [1 \<mapsto> 3, 2 \<mapsto> 11, 3 \<mapsto> 13]] [2] [] []
         = Inr ([], [(2, True, 0, True)])"
  using binomial_cubic_detector_below_3 [of 2 "[1 \<mapsto> 3, 2 \<mapsto> 11, 3 \<mapsto> 13]"
      "[2 \<mapsto> [1 \<mapsto> 3, 2 \<mapsto> 11, 3 \<mapsto> 13]]"
      "[1 \<mapsto> 3, 2 \<mapsto> 11, 3 \<mapsto> 13]" "\<lambda>n. n = 2" "[]" "[]"]
  by simp

section \<open>The tables built by the engines\<close>

lemma stat_entry_top: "0 < k \<Longrightarrow> stat_entry (Suc 0) n 0 k = int (M_ref k n)"
  by (simp add: stat_entry_def M_ref_weight_from)

lemma rec4_top:
  assumes "0 \<le> n"
  shows "rec4 n 1 0 = Inr (map (stat_entry (Suc 0) (nat n) 0) [0..<5])"
  using rec4_value [of 1 "nat n" 0] assms by simp

lemma rec3_top:
  assumes "0 \<le> n"
  shows "rec3 n 1 0 = Inr (map (stat_entry (Suc 0) (nat n) 0) [0..<4])"
  using rec3_value [of 1 "nat n" 0] assms by simp

lemma stats_dict4_top:
  "stats_dict4 (map (stat_entry (Suc 0) (nat n) 0) [0..<5]) = M_row 4 n"
proof
  fix k :: int
  consider "k = 1" | "k = 2" | "k = 3" | "k = 4" | "k < 1 \<or> 4 < k" by linarith
  then show "stats_dict4 (map (stat_entry (Suc 0) (nat n) 0) [0..<5]) k = M_row 4 n k"
    by cases (auto simp: stats_dict4_def M_row_def upto14 upt5 stat_entry_top)
qed

lemma stats_dict3_top:
  "stats_dict3 (map (stat_entry (Suc 0) (nat n) 0) [0..<4]) = M_row 3 n"
proof
  fix k :: int
  consider "k = 1" | "k = 2" | "k = 3" | "k < 1 \<or> 3 < k" by linarith
  then show "stats_dict3 (map (stat_entry (Suc 0) (nat n) 0) [0..<4]) k = M_row 3 n k"
    by cases (auto simp: stats_dict3_def M_row_def upto13 upt4 stat_entry_top)
qed

lemma compute_M4_loop_eq:
  assumes "\<forall>n\<in>set ns. 0 \<le> n"
  shows "compute_M4_loop ns Ms = Inr (\<lambda>n. if n \<in> set ns then Some (M_row 4 n) else Ms n)"
  using assms
proof (induction ns arbitrary: Ms)
  case Nil
  then show ?case by simp
next
  case (Cons n ns)
  then have n: "0 \<le> n" and ns: "\<forall>n\<in>set ns. 0 \<le> n" by simp_all
  show ?case
    by (simp add: rec4_top [OF n] stats_dict4_top Cons.IH [OF ns]) (auto simp: fun_eq_iff)
qed

lemma compute_M3_loop_eq:
  assumes "\<forall>n\<in>set ns. 0 \<le> n"
  shows "compute_M3_loop ns Ms = Inr (\<lambda>n. if n \<in> set ns then Some (M_row 3 n) else Ms n)"
  using assms
proof (induction ns arbitrary: Ms)
  case Nil
  then show ?case by simp
next
  case (Cons n ns)
  then have n: "0 \<le> n" and ns: "\<forall>n\<in>set ns. 0 \<le> n" by simp_all
  show ?case
    by (simp add: rec3_top [OF n] stats_dict3_top Cons.IH [OF ns]) (auto simp: fun_eq_iff)
qed

lemma compute_M_up_to_4_eq: "compute_M_up_to_4 n_max = Inr (M_table 4 n_max)"
proof -
  have "\<forall>n\<in>set [0..n_max]. 0 \<le> n" by simp
  then show ?thesis
    unfolding compute_M_up_to_4_def M_table_def
    by (simp add: compute_M4_loop_eq)
qed

lemma compute_M_up_to_3_eq: "compute_M_up_to_3 n_max = Inr (M_table 3 n_max)"
proof -
  have "\<forall>n\<in>set [0..n_max]. 0 \<le> n" by simp
  then show ?thesis
    unfolding compute_M_up_to_3_def M_table_def
    by (simp add: compute_M3_loop_eq)
qed

lemma M_of_table:
  "M_of (Inr (M_table K n_max)) n k =
     (if 0 \<le> n \<and> n \<le> n_max \<and> 1 \<le> k \<and> k \<le> K then Some (int (M_ref (nat k) (nat n))) else None)"
  by (simp add: M_of_def M_table_def M_row_def)

lemma rec4_projection:
  assumes "0 \<le> n" and "1 \<le> k" and "k \<le> 4"
  shows "\<exists>V. rec4 n 1 0 = Inr V \<and> V ! nat k = int (M_ref (nat k) (nat n))"
proof -
  from assms(2,3) have "nat k < 5" "0 < nat k" by simp_all
  then have "map (stat_entry (Suc 0) (nat n) 0) [0..<5] ! nat k = int (M_ref (nat k) (nat n))"
    by (simp add: stat_entry_top)
  with rec4_top [OF assms(1)] show ?thesis by blast
qed

lemma rec3_projection:
  assumes "0 \<le> n" and "1 \<le> k" and "k \<le> 3"
  shows "\<exists>V. rec3 n 1 0 = Inr V \<and> V ! nat k = int (M_ref (nat k) (nat n))"
proof -
  from assms(2,3) have "nat k < 4" "0 < nat k" by simp_all
  then have "map (stat_entry (Suc 0) (nat n) 0) [0..<4] ! nat k = int (M_ref (nat k) (nat n))"
    by (simp add: stat_entry_top)
  with rec3_top [OF assms(1)] show ?thesis by blast
qed

section \<open>Claims about the values of the engines\<close>

text \<open>
  C1: for every \<open>n\<close> in \<open>[0, N_MAX]\<close> and every \<open>k\<close> in \<open>[1, K]\<close>, the value \<open>M_k(n)\<close> in
  the table built by the engine (\<open>rec(n, 1, 0)\<close> at index \<open>k\<close>) is the reference value:
  the sum, over the partitions of \<open>n\<close> with exactly \<open>k\<close> distinct part sizes, of the
  product of the multiplicities. This holds for the quartic engine (\<open>K = 4\<close>) and for the
  cubic engine (\<open>K = 3\<close>); both give \<open>M_1(4) = 7\<close>.
\<close>

theorem engine_computes_M_ref:
  "(0 \<le> n \<and> n \<le> n_max \<and> 1 \<le> k \<and> k \<le> 4 \<longrightarrow>
      M_of (compute_M_up_to_4 n_max) n k = Some (int (M_ref (nat k) (nat n))) \<and>
      (\<exists>V. rec4 n 1 0 = Inr V \<and> V ! nat k = int (M_ref (nat k) (nat n)))) \<and>
   (0 \<le> n \<and> n \<le> n_max \<and> 1 \<le> k \<and> k \<le> 3 \<longrightarrow>
      M_of (compute_M_up_to_3 n_max) n k = Some (int (M_ref (nat k) (nat n))) \<and>
      (\<exists>V. rec3 n 1 0 = Inr V \<and> V ! nat k = int (M_ref (nat k) (nat n)))) \<and>
   M_of (compute_M_up_to_4 4) 4 1 = Some 7 \<and>
   M_of (compute_M_up_to_3 4) 4 1 = Some 7"
proof -
  have "M_of (compute_M_up_to_4 4) 4 1 = Some 7" by code_simp
  moreover have "M_of (compute_M_up_to_3 4) 4 1 = Some 7" by code_simp
  ultimately show ?thesis
    using rec4_projection [of n k] rec3_projection [of n k]
    by (simp add: compute_M_up_to_4_eq compute_M_up_to_3_eq M_of_table)
qed

theorem engine_computes_M_ref_witness:
  "(0::int) \<le> 4 \<and> (4::int) \<le> 4 \<and> (1::int) \<le> 1 \<and> (1::int) \<le> 4 \<and> M_ref 1 4 = 7"
proof -
  have h: "(0::int) \<le> 4 \<and> (4::int) \<le> 4 \<and> (1::int) \<le> 1 \<and> (1::int) \<le> 4" by simp
  from engine_computes_M_ref [of 4 4 1] h
  have a: "M_of (compute_M_up_to_4 4) 4 1 = Some (int (M_ref (nat 1) (nat 4)))" by blast
  from engine_computes_M_ref [of 4 4 1]
  have b: "M_of (compute_M_up_to_4 4) 4 1 = Some 7" by blast
  from a b have "Some (int (M_ref (nat 1) (nat 4))) = Some (7::int)" by (simp only:)
  then have "int (M_ref (nat 1) (nat 4)) = 7" by (simp only: option.inject)
  then have "M_ref 1 4 = 7" by simp
  with h show ?thesis by simp
qed

text \<open>
  C9: for every \<open>n \<ge> 0\<close> within both tables and every \<open>k\<close> in \<open>{1, 2, 3}\<close>, the cubic
  engine and the quartic engine produce the same value \<open>M_k(n)\<close>.
\<close>

theorem engines_agree:
  "0 \<le> n \<Longrightarrow> n \<le> n_max3 \<Longrightarrow> n \<le> n_max4 \<Longrightarrow> k = 1 \<or> k = 2 \<or> k = 3 \<Longrightarrow>
     M_of (compute_M_up_to_3 n_max3) n k = M_of (compute_M_up_to_4 n_max4) n k \<and>
     M_of (compute_M_up_to_3 n_max3) n k \<noteq> None"
  by (auto simp: compute_M_up_to_4_eq compute_M_up_to_3_eq M_of_table)

theorem engines_agree_witness:
  "(0::int) \<le> 6 \<and> (6::int) \<le> 6 \<and> (6::int) \<le> 7 \<and> ((3::int) = 1 \<or> (3::int) = 2 \<or> (3::int) = 3) \<and>
   M_of (compute_M_up_to_3 6) 6 3 = M_of (compute_M_up_to_4 7) 6 3 \<and>
   M_of (compute_M_up_to_3 6) 6 3 \<noteq> None \<and>
   M_of (compute_M_up_to_3 6) 6 3 = Some 1"
proof -
  have "M_of (compute_M_up_to_3 6) 6 3 = Some 1" by code_simp
  then show ?thesis using engines_agree [of 6 6 7 3] by simp
qed

section \<open>Small cases and finiteness of the reference\<close>

lemma finite_partitions: "finite (partitions n)"
proof -
  have "partitions n \<subseteq> {p. set_mset p \<subseteq> {..n} \<and> size p \<le> n}"
  proof
    fix p assume "p \<in> partitions n"
    then have "\<forall>x\<in>#p. 1 \<le> x" and "sum_mset p = n"
      by (simp_all add: partitions_def positive_iff_no_zero)
    then show "p \<in> {p. set_mset p \<subseteq> {..n} \<and> size p \<le> n}"
      by (rule positive_parts_bounded)
  qed
  then show ?thesis using finite_bounded_msets finite_subset by blast
qed

lemma partitions_0: "partitions 0 = {{#}}"
proof (rule set_eqI)
  fix p :: "nat multiset"
  show "p \<in> partitions 0 \<longleftrightarrow> p \<in> {{#}}"
  proof
    assume "p \<in> partitions 0"
    then have "\<forall>x\<in>#p. 1 \<le> x" and "sum_mset p = 0"
      by (simp_all add: partitions_def positive_iff_no_zero)
    with only_empty_sums_to_0 [of 1 p] show "p \<in> {{#}}" by simp
  next
    assume "p \<in> {{#}}"
    then show "p \<in> partitions 0" by (simp add: partitions_def)
  qed
qed

lemma partitions_step:
  assumes "p \<in> partitions n" and "0 < n"
  shows "\<exists>x q. p = add_mset x q \<and> 1 \<le> x \<and> x \<le> n \<and> q \<in> partitions (n - x)"
proof -
  from assms have z: "0 \<notin># p" and s: "sum_mset p = n" by (simp_all add: partitions_def)
  from s assms(2) have "p \<noteq> {#}" by auto
  then obtain x q where p: "p = add_mset x q" by (meson multiset_cases)
  from z p have "x \<noteq> 0" and zq: "0 \<notin># q" by auto
  moreover from s p have "x + sum_mset q = n" by simp
  ultimately have "1 \<le> x" "x \<le> n" "sum_mset q = n - x" by simp_all
  with zq p show ?thesis by (auto simp: partitions_def)
qed

lemma partitions_1: "partitions 1 = {{#1#}}"
proof (rule set_eqI)
  fix p :: "nat multiset"
  show "p \<in> partitions 1 \<longleftrightarrow> p \<in> {{#1#}}"
  proof
    assume "p \<in> partitions 1"
    then obtain x q where "p = add_mset x q" "1 \<le> x" "x \<le> 1" "q \<in> partitions (1 - x)"
      using partitions_step [of p 1] by auto
    then have "x = 1" and "q \<in> partitions 0" and "p = add_mset x q" by simp_all
    then show "p \<in> {{#1#}}" by (simp add: partitions_0)
  next
    assume "p \<in> {{#1#}}"
    then show "p \<in> partitions 1" by (simp add: partitions_def)
  qed
qed

lemma partitions_2: "partitions 2 = {{#2#}, {#1, 1#}}"
proof (rule set_eqI)
  fix p :: "nat multiset"
  show "p \<in> partitions 2 \<longleftrightarrow> p \<in> {{#2#}, {#1, 1#}}"
  proof
    assume "p \<in> partitions 2"
    then obtain x q where p: "p = add_mset x q" and x: "1 \<le> x" "x \<le> 2"
      and q: "q \<in> partitions (2 - x)"
      using partitions_step [of p 2] by auto
    from x consider "x = 1" | "x = 2" by linarith
    then show "p \<in> {{#2#}, {#1, 1#}}"
    proof cases
      case 1
      with q have "q \<in> partitions 1" by simp
      then have "q = {#1#}" unfolding partitions_1 by blast
      with 1 p show ?thesis by simp
    next
      case 2
      with q have "q \<in> partitions 0" by simp
      with 2 p show ?thesis by (simp add: partitions_0)
    qed
  next
    assume "p \<in> {{#2#}, {#1, 1#}}"
    then show "p \<in> partitions 2" by (auto simp: partitions_def)
  qed
qed

lemma max_distinct_2: "max_distinct 2 = 1"
  by (simp add: max_distinct_def partitions_2 distinct_sizes_def)




lemma M_ref_at_0: "0 < k \<Longrightarrow> M_ref k 0 = 0"
  by (simp add: M_ref_weight_from weight_from_0)

lemma M_ref_above_max:
  assumes "max_distinct n < k"
  shows "M_ref k n = 0"
proof -
  have "p \<notin> {p. p \<in> partitions n \<and> distinct_sizes p = k}" for p
  proof
    assume "p \<in> {p. p \<in> partitions n \<and> distinct_sizes p = k}"
    then have p: "p \<in> partitions n" and d: "distinct_sizes p = k" by simp_all
    from p have "distinct_sizes p \<le> Max (distinct_sizes ` partitions n)"
      by (intro Max_ge finite_imageI finite_partitions imageI)
    with d assms show False by (simp add: max_distinct_def)
  qed
  then have "{p. p \<in> partitions n \<and> distinct_sizes p = k} = {}" by blast
  then show ?thesis by (simp only: M_ref_def sum.empty)
qed

lemma rec4_returns:
  assumes "0 \<le> remaining" and "1 \<le> min_part"
  shows "rec4 remaining min_part distinct_used =
           Inr (map (stat_entry (nat min_part) (nat remaining) distinct_used) [0..<5])"
  using rec4_value [of "nat min_part" "nat remaining" distinct_used] assms by simp

lemma rec3_returns:
  assumes "0 \<le> remaining" and "1 \<le> min_part"
  shows "rec3 remaining min_part distinct_used =
           Inr (map (stat_entry (nat min_part) (nat remaining) distinct_used) [0..<4])"
  using rec3_value [of "nat min_part" "nat remaining" distinct_used] assms by simp

lemma stat_entry_nonneg: "0 \<le> stat_entry a n d k"
  by (simp add: stat_entry_def)

section \<open>The recursive calls of the engines\<close>

lemma rec4_loop_invariant:
  assumes "rec4_loop (remaining, min_part, distinct_used) y"
  shows "case y of
           Inl (r, d, i, V) \<Rightarrow>
             r = remaining \<and> r \<noteq> 0 \<and> d = distinct_used \<and> min_part \<le> i
         | Inr (r, d, i, mx, m, V) \<Rightarrow>
             r = remaining \<and> r \<noteq> 0 \<and> d = distinct_used \<and> min_part \<le> i \<and>
             i < r + 1 \<and> \<not> d + 1 > 4 \<and> i \<noteq> 0 \<and> mx = r div i \<and> 1 \<le> m"
  using assms
proof (induction rule: rec4_loop.induct)
  case (1 y)
  then show ?case by (cases rule: rec4_rec4_parts_rec4_mults_rel.cases) auto
next
  case (2 x y)
  from 2(2) 2(3) show ?case by (cases rule: rec4_rec4_parts_rec4_mults_rel.cases) auto
qed

lemma rec4_calls_cover:
  assumes "rec4_loop s y" and "rec4_rec4_parts_rec4_mults_rel (Inl t) (Inr y)"
  shows "rec4_calls s t"
proof -
  obtain remaining min_part distinct_used where s: "s = (remaining, min_part, distinct_used)"
    by (cases s) auto
  from assms(2) show ?thesis
  proof (cases rule: rec4_rec4_parts_rec4_mults_rel.cases)
    case (4 r d i mx m V)
    with rec4_loop_invariant [OF assms(1) [unfolded s]]
    have "r = remaining" "r \<noteq> 0" "d = distinct_used" "min_part \<le> i" "i < r + 1"
      "\<not> d + 1 > 4" "i \<noteq> 0" "mx = r div i" "1 \<le> m" "m < mx + 1"
      by simp_all
    then have "rec4_calls (remaining, min_part, distinct_used)
                 (remaining - m * i, i + 1, distinct_used + 1)"
      by (intro rec4_calls.intros) simp_all
    with 4 s \<open>r = remaining\<close> \<open>d = distinct_used\<close> show ?thesis by simp
  qed
qed

lemma rec3_loop_invariant:
  assumes "rec3_loop (remaining, min_part, distinct_used) y"
  shows "case y of
           Inl (r, d, i, V) \<Rightarrow>
             r = remaining \<and> r \<noteq> 0 \<and> d = distinct_used \<and> min_part \<le> i
         | Inr (r, d, i, mx, m, V) \<Rightarrow>
             r = remaining \<and> r \<noteq> 0 \<and> d = distinct_used \<and> min_part \<le> i \<and>
             i < r + 1 \<and> \<not> d + 1 > 3 \<and> i \<noteq> 0 \<and> mx = r div i \<and> 1 \<le> m"
  using assms
proof (induction rule: rec3_loop.induct)
  case (1 y)
  then show ?case by (cases rule: rec3_rec3_parts_rec3_mults_rel.cases) auto
next
  case (2 x y)
  from 2(2) 2(3) show ?case by (cases rule: rec3_rec3_parts_rec3_mults_rel.cases) auto
qed

lemma rec3_calls_cover:
  assumes "rec3_loop s y" and "rec3_rec3_parts_rec3_mults_rel (Inl t) (Inr y)"
  shows "rec3_calls s t"
proof -
  obtain remaining min_part distinct_used where s: "s = (remaining, min_part, distinct_used)"
    by (cases s) auto
  from assms(2) show ?thesis
  proof (cases rule: rec3_rec3_parts_rec3_mults_rel.cases)
    case (4 r d i mx m V)
    with rec3_loop_invariant [OF assms(1) [unfolded s]]
    have "r = remaining" "r \<noteq> 0" "d = distinct_used" "min_part \<le> i" "i < r + 1"
      "\<not> d + 1 > 3" "i \<noteq> 0" "mx = r div i" "1 \<le> m" "m < mx + 1"
      by simp_all
    then have "rec3_calls (remaining, min_part, distinct_used)
                 (remaining - m * i, i + 1, distinct_used + 1)"
      by (intro rec3_calls.intros) simp_all
    with 4 s \<open>r = remaining\<close> \<open>d = distinct_used\<close> show ?thesis by simp
  qed
qed

section \<open>Claims about the statistics vectors\<close>

text \<open>
  C6: both engines give \<open>M_k(0) = 0\<close> for every \<open>k\<close> in \<open>[1, K]\<close>, and for every \<open>n\<close> in
  \<open>[0, N_MAX]\<close> they give \<open>M_k(n) = 0\<close> for every \<open>k\<close> in \<open>[1, K]\<close> greater than the largest
  number of distinct part sizes of a partition of \<open>n\<close>.
\<close>

theorem engine_zero_entries:
  "(0 \<le> n_max \<and> 1 \<le> k \<and> k \<le> 4 \<longrightarrow> M_of (compute_M_up_to_4 n_max) 0 k = Some 0) \<and>
   (0 \<le> n_max \<and> 1 \<le> k \<and> k \<le> 3 \<longrightarrow> M_of (compute_M_up_to_3 n_max) 0 k = Some 0) \<and>
   (0 \<le> n \<and> n \<le> n_max \<and> 1 \<le> k \<and> k \<le> 4 \<and> max_distinct (nat n) < nat k \<longrightarrow>
      M_of (compute_M_up_to_4 n_max) n k = Some 0) \<and>
   (0 \<le> n \<and> n \<le> n_max \<and> 1 \<le> k \<and> k \<le> 3 \<and> max_distinct (nat n) < nat k \<longrightarrow>
      M_of (compute_M_up_to_3 n_max) n k = Some 0)"
  by (simp add: compute_M_up_to_4_eq compute_M_up_to_3_eq M_of_table M_ref_at_0 M_ref_above_max)

theorem engine_zero_entries_witness:
  "(0::int) \<le> 2 \<and> (1::int) \<le> 2 \<and> (2::int) \<le> 3 \<and> (2::int) \<le> 4 \<and> max_distinct (nat 2) < nat 2 \<and>
   M_of (compute_M_up_to_4 2) 0 2 = Some 0 \<and> M_of (compute_M_up_to_3 2) 0 2 = Some 0 \<and>
   M_of (compute_M_up_to_4 2) 2 2 = Some 0 \<and> M_of (compute_M_up_to_3 2) 2 2 = Some 0"
proof -
  have "max_distinct (nat 2) < nat 2" by (simp add: max_distinct_2)
  then show ?thesis using engine_zero_entries [of 2 2 2] by simp
qed

text \<open>
  C7: for every state with \<open>remaining \<ge> 0\<close> and \<open>min_part \<ge> 1\<close> (and any
  \<open>distinct_used\<close>, in particular \<open>0 \<le> distinct_used \<le> K\<close>), \<open>rec\<close> returns a vector of
  length \<open>K + 1\<close> all of whose components are non-negative; hence \<open>M_k(n) \<ge> 0\<close> for all
  \<open>n\<close> in \<open>[0, N_MAX]\<close> and \<open>k\<close> in \<open>[1, K]\<close>.
\<close>

theorem statistics_nonnegative:
  "(0 \<le> remaining \<and> 1 \<le> min_part \<longrightarrow>
      (\<exists>V. rec4 remaining min_part distinct_used = Inr V \<and> length V = 5 \<and> (\<forall>v\<in>set V. 0 \<le> v)) \<and>
      (\<exists>V. rec3 remaining min_part distinct_used = Inr V \<and> length V = 4 \<and> (\<forall>v\<in>set V. 0 \<le> v))) \<and>
   (0 \<le> n \<and> n \<le> n_max \<and> 1 \<le> k \<and> k \<le> 4 \<longrightarrow>
      (\<exists>v. M_of (compute_M_up_to_4 n_max) n k = Some v \<and> 0 \<le> v)) \<and>
   (0 \<le> n \<and> n \<le> n_max \<and> 1 \<le> k \<and> k \<le> 3 \<longrightarrow>
      (\<exists>v. M_of (compute_M_up_to_3 n_max) n k = Some v \<and> 0 \<le> v))"
  by (auto simp: rec4_returns rec3_returns stat_entry_nonneg
        compute_M_up_to_4_eq compute_M_up_to_3_eq M_of_table)

theorem statistics_nonnegative_witness:
  "(0::int) \<le> 6 \<and> (1::int) \<le> 2 \<and>
   (\<exists>V. rec4 6 2 1 = Inr V \<and> length V = 5 \<and> (\<forall>v\<in>set V. 0 \<le> v)) \<and>
   (\<exists>V. rec3 6 2 1 = Inr V \<and> length V = 4 \<and> (\<forall>v\<in>set V. 0 \<le> v)) \<and>
   (6::int) \<le> 6 \<and>
   (\<exists>v. M_of (compute_M_up_to_4 6) 6 2 = Some v \<and> 0 \<le> v) \<and>
   (\<exists>v. M_of (compute_M_up_to_3 6) 6 2 = Some v \<and> 0 \<le> v)"
  using statistics_nonnegative [of 6 2 1 6 6 2] by simp

text \<open>
  C8: \<open>rec\<close> is a total function (its definition above comes with a termination proof),
  and for every input with \<open>remaining \<ge> 0\<close> and \<open>min_part \<ge> 1\<close> it returns a vector
  and raises nothing. Every recursive call made from such a state is again such a state,
  has a strictly smaller \<open>remaining\<close>, and has \<open>distinct_used\<close> increased by one and not
  above \<open>K\<close>.
\<close>

theorem rec_terminates:
  "(0 \<le> remaining \<and> 1 \<le> min_part \<longrightarrow>
      (\<exists>V. rec4 remaining min_part distinct_used = Inr V) \<and>
      (\<exists>V. rec3 remaining min_part distinct_used = Inr V)) \<and>
   (0 \<le> remaining \<and> 1 \<le> min_part \<and>
    rec4_calls (remaining, min_part, distinct_used) (remaining', min_part', distinct_used') \<longrightarrow>
      0 \<le> remaining' \<and> remaining' < remaining \<and> 1 \<le> min_part' \<and>
      distinct_used' = distinct_used + 1 \<and> distinct_used' \<le> 4) \<and>
   (0 \<le> remaining \<and> 1 \<le> min_part \<and>
    rec3_calls (remaining, min_part, distinct_used) (remaining', min_part', distinct_used') \<longrightarrow>
      0 \<le> remaining' \<and> remaining' < remaining \<and> 1 \<le> min_part' \<and>
      distinct_used' = distinct_used + 1 \<and> distinct_used' \<le> 3)"
proof -
  have step: "0 \<le> r - m * i \<and> r - m * i < r"
    if "1 \<le> i" "1 \<le> m" "m < r div i + 1" for r i m :: int
  proof -
    from that have ipos: "0 < i" and "m \<le> r div i" by simp_all
    then have "m * i \<le> (r div i) * i" by (simp add: mult_right_mono)
    also have "\<dots> \<le> r" using ipos
      by (metis mult.commute div_mult_mod_eq le_add_same_cancel1 pos_mod_sign)
    finally have "m * i \<le> r" .
    moreover have "0 < m * i" using that(2) ipos by simp
    ultimately show ?thesis by simp
  qed
  have c4: "0 \<le> remaining' \<and> remaining' < remaining \<and> 1 \<le> min_part' \<and>
      distinct_used' = distinct_used + 1 \<and> distinct_used' \<le> 4"
    if "1 \<le> min_part"
      "rec4_calls (remaining, min_part, distinct_used) (remaining', min_part', distinct_used')"
    using that(2)
  proof cases
    case (1 i m)
    with that(1) have "1 \<le> i" by simp
    with 1 step [of i m remaining] show ?thesis by simp
  qed
  have c3: "0 \<le> remaining' \<and> remaining' < remaining \<and> 1 \<le> min_part' \<and>
      distinct_used' = distinct_used + 1 \<and> distinct_used' \<le> 3"
    if "1 \<le> min_part"
      "rec3_calls (remaining, min_part, distinct_used) (remaining', min_part', distinct_used')"
    using that(2)
  proof cases
    case (1 i m)
    with that(1) have "1 \<le> i" by simp
    with 1 step [of i m remaining] show ?thesis by simp
  qed
  show ?thesis
    using c4 c3 by (simp add: rec4_returns rec3_returns)
qed

theorem rec_terminates_witness:
  "(0::int) \<le> 4 \<and> (1::int) \<le> 1 \<and>
   rec4 4 1 0 = Inr [0, 7, 3, 0, 0] \<and> rec3 4 1 0 = Inr [0, 7, 3, 0] \<and>
   rec4_calls (4, 1, 0) (2, 2, 1) \<and> rec3_calls (4, 1, 0) (2, 2, 1) \<and>
   (0::int) \<le> 2 \<and> (2::int) < 4 \<and> (1::int) \<le> 2 \<and> (1::int) = 0 + 1 \<and> (1::int) \<le> 3"
proof -
  have r4: "rec4 4 1 0 = Inr [0, 7, 3, 0, 0]" by code_simp
  have r3: "rec3 4 1 0 = Inr [0, 7, 3, 0]" by code_simp
  have c4: "rec4_calls (4, 1, 0) (4 - 2 * 1, 1 + 1, 0 + 1)"
    by (rule rec4_calls.intros) simp_all
  have c3: "rec3_calls (4, 1, 0) (4 - 2 * 1, 1 + 1, 0 + 1)"
    by (rule rec3_calls.intros) simp_all
  from c4 c3 have "rec4_calls (4, 1, 0) (2, 2, 1)" "rec3_calls (4, 1, 0) (2, 2, 1)" by simp_all
  with r4 r3 show ?thesis using rec_terminates [of 4 1 0 2 2 1] by simp
qed

section \<open>The sum of the statistics and the number of partitions\<close>

















section \<open>Claim about the sum of the statistics\<close>




section \<open>The verification drivers\<close>

lemma dict_index_table:
  "0 \<le> n \<Longrightarrow> n \<le> n_max \<Longrightarrow> dict_index (M_table K n_max) n = Inr (M_row K n)"
  by (simp add: dict_index_def M_table_def)

lemma quartic_L4_row: "quartic_L4 n (M_row 4 n) = Inr (L4_ref n)"
  by (simp add: quartic_L4_eval dict_get_def M_row_def L4_ref_def)

lemma verify_loop_eq:
  assumes "\<forall>n\<in>set ns. 0 \<le> n \<and> n \<le> n_max"
  shows "verify_loop isprime verbose (M_table 4 n_max) ns failures out =
           Inr (failures @ map (\<lambda>n. (n, isprime n, L4_ref n))
                            (filter (\<lambda>n. \<not> passes isprime (L4_ref n) n) ns),
                if verbose
                then out @ map (\<lambda>n. (n, isprime n, L4_ref n, passes isprime (L4_ref n) n)) ns
                else out)"
  using assms
proof (induction ns arbitrary: failures out)
  case Nil
  then show ?case by simp
next
  case (Cons n ns)
  then have n: "0 \<le> n" "n \<le> n_max" and ns: "\<forall>n\<in>set ns. 0 \<le> n \<and> n \<le> n_max"
    by simp_all
  show ?case
    by (simp add: dict_index_table [OF n] quartic_L4_row Cons.IH [OF ns] Let_def passes_def)
qed

lemma main_loop_eq:
  assumes "\<forall>n\<in>set ns. 0 \<le> n \<and> n \<le> n_max"
  shows "main_loop isprime (M_table 3 n_max) ns failures out =
           Inr (failures @ filter (\<lambda>n. \<not> passes isprime (binomial_cubic_detector n (M_row 3 n)) n) ns,
                out @ map (\<lambda>n. (n, isprime n, binomial_cubic_detector n (M_row 3 n),
                                  passes isprime (binomial_cubic_detector n (M_row 3 n)) n)) ns)"
  using assms
proof (induction ns arbitrary: failures out)
  case Nil
  then show ?case by simp
next
  case (Cons n ns)
  then have n: "0 \<le> n" "n \<le> n_max" and ns: "\<forall>n\<in>set ns. 0 \<le> n \<and> n \<le> n_max"
    by simp_all
  show ?case
    by (simp add: dict_index_table [OF n] Cons.IH [OF ns] Let_def passes_def)
qed

section \<open>Claim about the verification drivers\<close>

text \<open>
  C4: for every \<open>N_max\<close> (in particular every \<open>N_max \<ge> 2\<close>) both drivers raise nothing
  and go through every \<open>n\<close> from 2 to \<open>N_max\<close> in increasing order: the printed rows are
  exactly one row per \<open>n\<close> in \<open>[2..N_max]\<close> (for the quartic driver when \<open>verbose\<close>), the
  row's status is the pass criterion \<open>(is_prime \<and> val = 0) \<or> (\<not> is_prime \<and> val \<noteq> 0)\<close>
  on the detector value, and \<open>failures\<close> holds exactly the \<open>n\<close> in \<open>[2..N_max]\<close> that do
  not pass, in increasing order (for the quartic driver as triples \<open>(n, is_prime, val)\<close>).
\<close>

theorem drivers_scan_whole_range:
  "verify_range isprime N_max verbose =
     Inr (map (\<lambda>n. (n, isprime n, L4_ref n))
            (filter (\<lambda>n. \<not> passes isprime (L4_ref n) n) [2..N_max]),
          if verbose
          then map (\<lambda>n. (n, isprime n, L4_ref n, passes isprime (L4_ref n) n)) [2..N_max]
          else []) \<and>
   binomial_main isprime N_max =
     Inr (filter (\<lambda>n. \<not> passes isprime (binomial_cubic_detector n (M_row 3 n)) n) [2..N_max],
          map (\<lambda>n. (n, isprime n, binomial_cubic_detector n (M_row 3 n),
                     passes isprime (binomial_cubic_detector n (M_row 3 n)) n)) [2..N_max])"
proof -
  have range: "\<forall>n\<in>set [2..N_max]. 0 \<le> n \<and> n \<le> N_max" by simp
  show ?thesis
    by (simp add: verify_range_def binomial_main_def compute_M_up_to_4_eq compute_M_up_to_3_eq
          verify_loop_eq [OF range] main_loop_eq [OF range])
qed

theorem drivers_scan_whole_range_witness:
  "verify_range (\<lambda>n. n = 2) 4 True =
     Inr ([(3, False, 0)], [(2, True, 0, True), (3, False, 0, False), (4, False, - 282408, True)]) \<and>
   binomial_main (\<lambda>n. n = 2) 4 =
     Inr ([3], [(2, True, 0, True), (3, False, 0, False), (4, False, 15, True)]) \<and>
   map (\<lambda>n. (n, n = 2, L4_ref n)) (filter (\<lambda>n. \<not> passes (\<lambda>n. n = 2) (L4_ref n) n) [2..4])
     = [(3, False, 0)] \<and>
   filter (\<lambda>n. \<not> passes (\<lambda>n. n = 2) (binomial_cubic_detector n (M_row 3 n)) n) [2..4] = [3]"
proof -
  have v: "verify_range (\<lambda>n. n = 2) 4 True =
     Inr ([(3, False, 0)], [(2, True, 0, True), (3, False, 0, False), (4, False, - 282408, True)])"
    by code_simp
  have b: "binomial_main (\<lambda>n. n = 2) 4 =
     Inr ([3], [(2, True, 0, True), (3, False, 0, False), (4, False, 15, True)])"
    by code_simp
  note t = drivers_scan_whole_range [of "\<lambda>n. n = 2" 4 True]
  from t v have "Inr (map (\<lambda>n. (n, n = 2, L4_ref n))
            (filter (\<lambda>n. \<not> passes (\<lambda>n. n = 2) (L4_ref n) n) [2..4]),
          if True
          then map (\<lambda>n. (n, n = 2, L4_ref n, passes (\<lambda>n. n = 2) (L4_ref n) n)) [2..4]
          else []) =
     (Inr ([(3, False, 0)], [(2, True, 0, True), (3, False, 0, False), (4, False, - 282408, True)])
        :: error + (int \<times> bool \<times> int) list \<times> (int \<times> bool \<times> int \<times> bool) list)"
    by (simp only:)
  then have f4: "map (\<lambda>n. (n, n = 2, L4_ref n)) (filter (\<lambda>n. \<not> passes (\<lambda>n. n = 2) (L4_ref n) n) [2..4])
     = [(3, False, 0)]"
    by (simp only: sum.inject prod.inject)
  from t b have "Inr (filter (\<lambda>n. \<not> passes (\<lambda>n. n = 2) (binomial_cubic_detector n (M_row 3 n)) n) [2..4],
          map (\<lambda>n. (n, n = 2, binomial_cubic_detector n (M_row 3 n),
                     passes (\<lambda>n. n = 2) (binomial_cubic_detector n (M_row 3 n)) n)) [2..4]) =
     (Inr ([3], [(2, True, 0, True), (3, False, 0, False), (4, False, 15, True)])
        :: error + int list \<times> (int \<times> bool \<times> int \<times> bool) list)"
    by (simp only:)
  then have f3: "filter (\<lambda>n. \<not> passes (\<lambda>n. n = 2) (binomial_cubic_detector n (M_row 3 n)) n) [2..4] = [3]"
    by (simp only: sum.inject prod.inject)
  from v b f4 f3 show ?thesis by (simp only: simp_thms)
qed

end
